theory Spec2Isabelle
  imports
    Main
    "HOL-Library.AList"
    "HOL-Library.Char_ord"
    "HOL-Library.List_Lexorder"
    "HOL-Library.Multiset"
    "HOL-Library.Product_Lexorder"
    "HOL-Library.Sublist"
begin

section \<open>Inverted index and boolean retrieval: the embedding\<close>

text \<open>
  The program is \<^verbatim>\<open>HW1_206567067_319001855.py\<close>: class \<^verbatim>\<open>InvertedIndex\<close> builds a
  dictionary from terms to lists of document numbers, class \<^verbatim>\<open>BooleanRetrieval\<close>
  evaluates postfix boolean queries over it with three two-cursor merges.

  Python values are modelled as follows. Document numbers are Python integers, here
  \<^typ>\<open>int\<close>. A \<^verbatim>\<open>str\<close> is a \<^typ>\<open>string\<close>, each \<^typ>\<open>char\<close> a code point
  below 256, compared by its number as Python compares strings. A \<^verbatim>\<open>dict\<close> is an
  association list in insertion order whose keys are distinct; a new key is added at the
  end and an existing key keeps its place, which is what \<^const>\<open>AList.update\<close> does. An
  exception is a value of type \<open>error\<close>, returned as \<open>Inl\<close>.
\<close>

datatype error = IndexError | KeyError

subsection \<open>String operations of the Python library that the code calls\<close>

text \<open>
  \<^verbatim>\<open>str.lower()\<close>. Among the code points below 256 it changes the letters A to Z (65 to
  90) and the Latin-1 capital letters 192 to 214 and 216 to 222; each moves up by 32. The
  code point 215 (the multiplication sign) and all others stay.
\<close>

definition lower_char :: "char \<Rightarrow> char" where
  "lower_char c =
     (let n = (of_char c :: nat) in
      if (65 \<le> n \<and> n \<le> 90) \<or> (192 \<le> n \<and> n \<le> 214) \<or> (216 \<le> n \<and> n \<le> 222)
      then char_of (n + 32) else c)"

definition str_lower :: "string \<Rightarrow> string" where
  "str_lower s = map lower_char s"

text \<open>\<^verbatim>\<open>s.replace('\n', '')\<close>: every newline character is removed.\<close>

definition remove_newlines :: "string \<Rightarrow> string" where
  "remove_newlines s = filter (\<lambda>c. c \<noteq> CHR 0x0A) s"

text \<open>
  \<^verbatim>\<open>s.split(' ')\<close>: the pieces between single spaces, empty pieces kept, so that the result
  has one more element than \<open>s\<close> has spaces. The second argument is the piece being read.
\<close>

fun split_on :: "char \<Rightarrow> string \<Rightarrow> string \<Rightarrow> string list" where
  "split_on sep w [] = [w]"
| "split_on sep w (c # cs) =
     (if c = sep then w # split_on sep [] cs else split_on sep (w @ [c]) cs)"

definition str_split_space :: "string \<Rightarrow> string list" where
  "str_split_space s = split_on (CHR '' '') [] s"

text \<open>
  \<^verbatim>\<open>s.split()\<close> and \<^verbatim>\<open>s.strip()\<close> work on whitespace. Among the code points below 256
  these are 9 to 13, 28 to 32, 133 (next line) and 160 (no-break space). \<^verbatim>\<open>split()\<close>
  returns the maximal runs of other characters, never an empty piece.
\<close>

definition isspace :: "char \<Rightarrow> bool" where
  "isspace c =
     (let n = (of_char c :: nat) in
      (9 \<le> n \<and> n \<le> 13) \<or> (28 \<le> n \<and> n \<le> 32) \<or> n = 133 \<or> n = 160)"

fun split_ws :: "string \<Rightarrow> string \<Rightarrow> string list" where
  "split_ws w [] = (if w = [] then [] else [w])"
| "split_ws w (c # cs) =
     (if isspace c then (if w = [] then split_ws [] cs else w # split_ws [] cs)
      else split_ws (w @ [c]) cs)"

definition str_split :: "string \<Rightarrow> string list" where
  "str_split s = split_ws [] s"

definition str_strip :: "string \<Rightarrow> string" where
  "str_strip s = rev (dropWhile isspace (rev (dropWhile isspace s)))"

subsection \<open>The classes\<close>

type_synonym posting_store = "(string \<times> int list) list"

record document =
  contents :: string
  internal_id :: string

record InvertedIndex =
  documents :: "(int \<times> document) list"
  posting_list :: posting_store

record BooleanRetrieval =
  inverted_index :: InvertedIndex
  all_docs :: "int list"

text \<open>
  \<^verbatim>\<open>posting_list\<close> is a \<^verbatim>\<open>defaultdict(list)\<close>. Reading it with \<^verbatim>\<open>d[k]\<close> at a key it does
  not have stores the empty list under that key and returns it; the dictionary is returned
  with the value.
\<close>

definition defaultdict_getitem :: "posting_store \<Rightarrow> string \<Rightarrow> int list \<times> posting_store" where
  "defaultdict_getitem d k =
     (case map_of d k of
        Some v \<Rightarrow> (v, d)
      | None \<Rightarrow> ([], AList.update k [] d))"

text \<open>\<^verbatim>\<open>d.get(k, [])\<close> does not store anything.\<close>

definition get_posting_list :: "InvertedIndex \<Rightarrow> string \<Rightarrow> int list" where
  "get_posting_list self term = (case map_of (posting_list self) term of Some v \<Rightarrow> v | None \<Rightarrow> [])"

subsection \<open>Index construction\<close>

text \<open>\<^verbatim>\<open>self.posting_list[term].append(doc_id)\<close>\<close>

definition append_posting :: "posting_store \<Rightarrow> string \<Rightarrow> int \<Rightarrow> posting_store" where
  "append_posting d term doc_id =
     (let (v, d') = defaultdict_getitem d term in AList.update term (v @ [doc_id]) d')"

fun update_terms :: "posting_store \<Rightarrow> string list \<Rightarrow> int \<Rightarrow> posting_store" where
  "update_terms d [] doc_id = d"
| "update_terms d (term # terms) doc_id =
     (if term \<noteq> [] then update_terms (append_posting d term doc_id) terms doc_id
      else update_terms d terms doc_id)"

definition update_posting_list :: "InvertedIndex \<Rightarrow> string \<Rightarrow> int \<Rightarrow> InvertedIndex" where
  "update_posting_list self doc doc_id =
     self\<lparr>posting_list := update_terms (posting_list self) (str_split doc) doc_id\<rparr>"

text \<open>
  The sort key of \<^verbatim>\<open>sort_posting_list\<close> is the pair \<^verbatim>\<open>(x, self.documents[x])\<close>; building it
  raises \<^verbatim>\<open>KeyError\<close> when \<open>x\<close> is not a key of \<^verbatim>\<open>documents\<close>. The values sorted are
  those of \<^verbatim>\<open>set(...)\<close>, pairwise different, so two keys always differ in the first component
  and the order is that of the numbers. \<^verbatim>\<open>list(set(xs))\<close> is \<open>xs\<close> without its repetitions,
  in an order the following sort makes immaterial.
\<close>

definition sort_one :: "(int \<times> document) list \<Rightarrow> int list \<Rightarrow> error + int list" where
  "sort_one docs xs =
     (if list_all (\<lambda>x. map_of docs x \<noteq> None) (remdups xs) then Inr (sort (remdups xs))
      else Inl KeyError)"

fun sort_terms :: "(int \<times> document) list \<Rightarrow> posting_store \<Rightarrow> string list \<Rightarrow> error + posting_store" where
  "sort_terms docs d [] = Inr d"
| "sort_terms docs d (term # terms) =
     (case sort_one docs (fst (defaultdict_getitem d term)) of
        Inl e \<Rightarrow> Inl e
      | Inr v \<Rightarrow> sort_terms docs (AList.update term v d) terms)"

definition sort_posting_list :: "InvertedIndex \<Rightarrow> error + InvertedIndex" where
  "sort_posting_list self =
     (case sort_terms (documents self) (posting_list self) (map fst (posting_list self)) of
        Inl e \<Rightarrow> Inl e
      | Inr d \<Rightarrow> Inr (self\<lparr>posting_list := d\<rparr>))"

text \<open>
  The constructor. Reading the files of the collection, cutting them at \<^verbatim>\<open><DOCNO>\<close> and
  \<^verbatim>\<open>extract_text_and_id\<close> are input: the argument is the sequence of pairs
  \<^verbatim>\<open>(contents, internal_id)\<close> that \<^verbatim>\<open>extract_text_and_id\<close> returns, in the order of the two
  nested loops. \<open>index_loop\<close> is the body of the loops with its counter \<open>i\<close>.
\<close>

fun index_loop :: "(string \<times> string) list \<Rightarrow> int \<Rightarrow> InvertedIndex \<Rightarrow> InvertedIndex" where
  "index_loop [] i self = self"
| "index_loop ((conts, iid) # rest) i self =
     index_loop rest (i + 1)
       (update_posting_list
          (self\<lparr>documents :=
             AList.update i \<lparr>contents = conts, internal_id = str_strip iid\<rparr> (documents self)\<rparr>)
          conts i)"

definition InvertedIndex_init :: "(string \<times> string) list \<Rightarrow> error + InvertedIndex" where
  "InvertedIndex_init parsed =
     sort_posting_list (index_loop parsed 0 \<lparr>documents = [], posting_list = []\<rparr>)"

subsection \<open>Term frequencies\<close>

text \<open>
  \<^verbatim>\<open>sorted(items, key=k, reverse=r)\<close> is stable in both directions: with \<^verbatim>\<open>reverse=True\<close>
  elements with equal keys keep their order.
\<close>

definition py_sorted :: "('a \<Rightarrow> 'k::linorder) \<Rightarrow> bool \<Rightarrow> 'a list \<Rightarrow> 'a list" where
  "py_sorted k reverse xs = (if reverse then rev (sort_key k (rev xs)) else sort_key k xs)"

text \<open>\<^verbatim>\<open>xs[:n]\<close>; a negative \<open>n\<close> counts from the end.\<close>

definition slice_to :: "int \<Rightarrow> 'a list \<Rightarrow> 'a list" where
  "slice_to n xs = (if 0 \<le> n then take (nat n) xs else take (length xs - nat (- n)) xs)"

definition term_frequencies :: "posting_store \<Rightarrow> (string \<times> nat) list" where
  "term_frequencies d = foldl (\<lambda>tf (term, doc_ids). AList.update term (length doc_ids) tf) [] d"

definition top_bottom_n_terms :: "InvertedIndex \<Rightarrow> int \<Rightarrow> bool \<Rightarrow> (string \<times> nat) list" where
  "top_bottom_n_terms self n top_flag =
     slice_to n
       (py_sorted (\<lambda>term_and_doc_freq. (snd term_and_doc_freq, fst term_and_doc_freq)) top_flag
          (term_frequencies (posting_list self)))"

subsection \<open>The three merges\<close>

text \<open>
  Each merge is a \<^verbatim>\<open>while\<close> loop over two cursors \<open>l1\<close> and \<open>l2\<close> with the result list
  \<open>res\<close>; the loop ends when a cursor reaches the end of its list.
\<close>

function and_loop :: "int list \<Rightarrow> int list \<Rightarrow> nat \<Rightarrow> nat \<Rightarrow> int list \<Rightarrow> int list" where
  "and_loop ordered_list1 ordered_list2 l1 l2 res =
     (if l1 < length ordered_list1 \<and> l2 < length ordered_list2 then
        (if ordered_list1 ! l1 = ordered_list2 ! l2 then
           and_loop ordered_list1 ordered_list2 (l1 + 1) (l2 + 1) (res @ [ordered_list1 ! l1])
         else if ordered_list1 ! l1 < ordered_list2 ! l2 then
           and_loop ordered_list1 ordered_list2 (l1 + 1) l2 res
         else and_loop ordered_list1 ordered_list2 l1 (l2 + 1) res)
      else res)"
  by pat_completeness auto
termination
  by (relation "measure (\<lambda>(xs, ys, l1, l2, res). (length xs - l1) + (length ys - l2))") auto

declare and_loop.simps [simp del]

definition and_query :: "int list \<Rightarrow> int list \<Rightarrow> int list" where
  "and_query ordered_list1 ordered_list2 = and_loop ordered_list1 ordered_list2 0 0 []"

function or_loop :: "int list \<Rightarrow> int list \<Rightarrow> nat \<Rightarrow> nat \<Rightarrow> int list \<Rightarrow> int list" where
  "or_loop ordered_list1 ordered_list2 l1 l2 res =
     (if l1 < length ordered_list1 \<and> l2 < length ordered_list2 then
        (if ordered_list1 ! l1 = ordered_list2 ! l2 then
           or_loop ordered_list1 ordered_list2 (l1 + 1) (l2 + 1) (res @ [ordered_list1 ! l1])
         else if ordered_list1 ! l1 < ordered_list2 ! l2 then
           or_loop ordered_list1 ordered_list2 (l1 + 1) l2 (res @ [ordered_list1 ! l1])
         else or_loop ordered_list1 ordered_list2 l1 (l2 + 1) (res @ [ordered_list2 ! l2]))
      else res @ drop l1 ordered_list1 @ drop l2 ordered_list2)"
  by pat_completeness auto
termination
  by (relation "measure (\<lambda>(xs, ys, l1, l2, res). (length xs - l1) + (length ys - l2))") auto

declare or_loop.simps [simp del]

definition or_query :: "int list \<Rightarrow> int list \<Rightarrow> int list" where
  "or_query ordered_list1 ordered_list2 = or_loop ordered_list1 ordered_list2 0 0 []"

function not_loop :: "int list \<Rightarrow> int list \<Rightarrow> nat \<Rightarrow> nat \<Rightarrow> int list \<Rightarrow> int list" where
  "not_loop docs ordered_list2 l1 l2 res =
     (if l1 < length docs \<and> l2 < length ordered_list2 then
        (if docs ! l1 = ordered_list2 ! l2 then
           not_loop docs ordered_list2 (l1 + 1) (l2 + 1) res
         else if docs ! l1 < ordered_list2 ! l2 then
           not_loop docs ordered_list2 (l1 + 1) l2 (res @ [docs ! l1])
         else not_loop docs ordered_list2 l1 (l2 + 1) res)
      else res @ drop l1 docs)"
  by pat_completeness auto
termination
  by (relation "measure (\<lambda>(xs, ys, l1, l2, res). (length xs - l1) + (length ys - l2))") auto

declare not_loop.simps [simp del]

definition not_query :: "int list \<Rightarrow> int list \<Rightarrow> int list" where
  "not_query docs ordered_list2 = not_loop docs ordered_list2 0 0 []"

subsection \<open>Query evaluation\<close>

text \<open>\<^verbatim>\<open>self.all_docs = [i for i in range(len(inverted_index.documents))]\<close>\<close>

definition BooleanRetrieval_init :: "InvertedIndex \<Rightarrow> BooleanRetrieval" where
  "BooleanRetrieval_init idx =
     \<lparr>inverted_index = idx, all_docs = map int [0 ..< length (documents idx)]\<rparr>"

definition operators :: "string set" where
  "operators = {''AND'', ''OR'', ''NOT''}"

text \<open>
  The loop over the words of the query. The stack is a list whose head is the top, so
  \<^verbatim>\<open>stack.append(v)\<close> is \<open>v # stack\<close> and \<^verbatim>\<open>stack.pop()\<close> takes the head, raising
  \<^verbatim>\<open>IndexError\<close> on the empty stack. The posting store is threaded through, because a term
  is read with \<^verbatim>\<open>posting_list[word.lower()]\<close>.
\<close>

fun eval_loop ::
  "int list \<Rightarrow> posting_store \<Rightarrow> int list list \<Rightarrow> string list
     \<Rightarrow> (error + int list list) \<times> posting_store" where
  "eval_loop docs d stack [] = (Inr stack, d)"
| "eval_loop docs d stack (word # query) =
     (if word \<notin> operators then
        (case defaultdict_getitem d (str_lower word) of
           (v, d') \<Rightarrow> eval_loop docs d' (v # stack) query)
      else if word = ''AND'' then
        (case stack of
           list2 # list1 # stack' \<Rightarrow> eval_loop docs d (and_query list1 list2 # stack') query
         | _ \<Rightarrow> (Inl IndexError, d))
      else if word = ''OR'' then
        (case stack of
           list2 # list1 # stack' \<Rightarrow> eval_loop docs d (or_query list1 list2 # stack') query
         | _ \<Rightarrow> (Inl IndexError, d))
      else if word = ''NOT'' then
        (case stack of
           list1 # stack' \<Rightarrow> eval_loop docs d (not_query docs list1 # stack') query
         | [] \<Rightarrow> (Inl IndexError, d))
      else eval_loop docs d stack query)"

text \<open>The lines after the loop: the implicit \<^verbatim>\<open>AND\<close> of exactly two values, then \<^verbatim>\<open>stack.pop()\<close>.\<close>

definition finish :: "int list list \<Rightarrow> error + int list" where
  "finish stack =
     (let stack' = (if length stack = 2 then [and_query (stack ! 1) (stack ! 0)] else stack)
      in case stack' of [] \<Rightarrow> Inl IndexError | v # _ \<Rightarrow> Inr v)"

definition eval_boolean_query ::
  "BooleanRetrieval \<Rightarrow> string \<Rightarrow> (error + int list) \<times> BooleanRetrieval" where
  "eval_boolean_query self query =
     (case eval_loop (all_docs self) (posting_list (inverted_index self)) []
             (str_split_space (remove_newlines query)) of
        (r, d) \<Rightarrow>
          (case r of Inl e \<Rightarrow> Inl e | Inr stack \<Rightarrow> finish stack,
           self\<lparr>inverted_index := (inverted_index self)\<lparr>posting_list := d\<rparr>\<rparr>))"

subsection \<open>The merges as recursion on the lists\<close>

text \<open>
  For the proofs, each loop is compared with a function that recurses on what the cursors
  have not passed yet: the loop at cursors \<open>l1\<close>, \<open>l2\<close> computes this function on
  \<open>drop l1\<close> and \<open>drop l2\<close> of its lists (lemmas \<open>and_loop_merge\<close>, \<open>or_loop_merge\<close>,
  \<open>not_loop_merge\<close> below).
\<close>

fun and_merge :: "int list \<Rightarrow> int list \<Rightarrow> int list" where
  "and_merge (x # xs) (y # ys) =
     (if x = y then x # and_merge xs ys
      else if x < y then and_merge xs (y # ys)
      else and_merge (x # xs) ys)"
| "and_merge xs ys = []"

fun or_merge :: "int list \<Rightarrow> int list \<Rightarrow> int list" where
  "or_merge (x # xs) (y # ys) =
     (if x = y then x # or_merge xs ys
      else if x < y then x # or_merge xs (y # ys)
      else y # or_merge (x # xs) ys)"
| "or_merge xs ys = xs @ ys"

fun not_merge :: "int list \<Rightarrow> int list \<Rightarrow> int list" where
  "not_merge (x # xs) (y # ys) =
     (if x = y then not_merge xs ys
      else if x < y then x # not_merge xs (y # ys)
      else not_merge (x # xs) ys)"
| "not_merge xs ys = xs"


subsection \<open>What the evaluation is compared with\<close>

text \<open>
  The value of a term in a query, as a function of the store alone: the list stored under
  the key, the empty list for a key that is absent.
\<close>

definition lookup :: "posting_store \<Rightarrow> string \<Rightarrow> int list" where
  "lookup d k = (case map_of d k of Some v \<Rightarrow> v | None \<Rightarrow> [])"

text \<open>
  Stack underflow, read off the words of a query alone: \<open>underflows n ws\<close> says that,
  starting with \<open>n\<close> values on the stack, some operator of \<open>ws\<close> finds fewer values than it
  pops (\<^verbatim>\<open>AND\<close> and \<^verbatim>\<open>OR\<close> pop two, \<^verbatim>\<open>NOT\<close> pops one). \<open>final_depth n ws\<close> is the number of
  values left after the last word when no operator underflows.
\<close>

fun underflows :: "nat \<Rightarrow> string list \<Rightarrow> bool" where
  "underflows n [] = False"
| "underflows n (w # ws) =
     (if w \<notin> operators then underflows (n + 1) ws
      else if w = ''NOT'' then n < 1 \<or> underflows n ws
      else n < 2 \<or> underflows (n - 1) ws)"

fun final_depth :: "nat \<Rightarrow> string list \<Rightarrow> nat" where
  "final_depth n [] = n"
| "final_depth n (w # ws) =
     (if w \<notin> operators then final_depth (n + 1) ws
      else if w = ''NOT'' then final_depth n ws
      else final_depth (n - 1) ws)"

subsection \<open>A small collection\<close>

text \<open>
  Three documents \<^verbatim>\<open>D1\<close>, \<^verbatim>\<open>D2\<close>, \<^verbatim>\<open>D3\<close> with the contents \<^verbatim>\<open>cat dog\<close>, \<^verbatim>\<open>dog bird\<close> and
  \<^verbatim>\<open>cat bird\<close>, the index the constructor builds from them (lemma \<open>example_index_built\<close>)
  and the retrieval object over it.
\<close>

definition example_parsed :: "(string \<times> string) list" where
  "example_parsed = [(''cat dog'', ''D1''), (''dog bird'', ''D2''), (''cat bird'', ''D3'')]"

definition example_index :: InvertedIndex where
  "example_index =
     \<lparr>documents =
        [(0, \<lparr>contents = ''cat dog'', internal_id = ''D1''\<rparr>),
         (1, \<lparr>contents = ''dog bird'', internal_id = ''D2''\<rparr>),
         (2, \<lparr>contents = ''cat bird'', internal_id = ''D3''\<rparr>)],
      posting_list = [(''cat'', [0, 2]), (''dog'', [0, 1]), (''bird'', [1, 2])]\<rparr>"

definition example_retrieval :: BooleanRetrieval where
  "example_retrieval = BooleanRetrieval_init example_index"

subsection \<open>What the index is compared with\<close>

text \<open>
  The numbers of the documents that contain the term \<open>k\<close>, when the documents are
  numbered from \<open>i\<close> on.
\<close>

fun doc_ids :: "string \<Rightarrow> int \<Rightarrow> (string \<times> string) list \<Rightarrow> int list" where
  "doc_ids k i [] = []"
| "doc_ids k i ((conts, iid) # rest) =
     (if k \<in> set (str_split conts) then [i] else []) @ doc_ids k (i + 1) rest"

subsection \<open>A store with three terms\<close>

text \<open>The terms \<^verbatim>\<open>a\<close>, \<^verbatim>\<open>b\<close>, \<^verbatim>\<open>c\<close> with posting lists of 5, 3 and 5 numbers.\<close>

definition example_abc :: InvertedIndex where
  "example_abc =
     \<lparr>documents = [],
      posting_list = [(''a'', [0, 1, 2, 3, 4]), (''b'', [0, 1, 2]), (''c'', [5, 6, 7, 8, 9])]\<rparr>"

subsection \<open>A document with Latin-1 characters\<close>

text \<open>
  One document whose contents are the words \<^verbatim>\<open>ecole\<close>, with e acute (233) as its first
  letter, and \<^verbatim>\<open>x\<close>, separated by a no-break space (160); its identifier \<^verbatim>\<open>D1\<close> stands
  between a no-break space and a next-line character (133). \<open>Ecole\<close> is the first word
  with a capital E acute (201).
\<close>

definition ecole :: string where
  "ecole = CHR 0xE9 # ''cole''"

definition Ecole :: string where
  "Ecole = CHR 0xC9 # ''cole''"

definition latin1_parsed :: "(string \<times> string) list" where
  "latin1_parsed = [(ecole @ [CHR 0xA0] @ ''x'', [CHR 0xA0] @ ''D1'' @ [CHR 0x85])]"

definition latin1_index :: InvertedIndex where
  "latin1_index =
     \<lparr>documents = [(0, \<lparr>contents = ecole @ [CHR 0xA0] @ ''x'', internal_id = ''D1''\<rparr>)],
      posting_list = [(ecole, [0]), (''x'', [0])]\<rparr>"

definition latin1_retrieval :: BooleanRetrieval where
  "latin1_retrieval = BooleanRetrieval_init latin1_index"

section \<open>The merges\<close>

subsection \<open>The loops compute the list recursions\<close>

lemma and_loop_merge:
  "and_loop xs ys l1 l2 res = res @ and_merge (drop l1 xs) (drop l2 ys)"
proof (induction xs ys l1 l2 res rule: and_loop.induct)
  case (1 xs ys l1 l2 res)
  show ?case
  proof (cases "l1 < length xs \<and> l2 < length ys")
    case True
    then have dx: "drop l1 xs = xs ! l1 # drop (Suc l1) xs"
      and dy: "drop l2 ys = ys ! l2 # drop (Suc l2) ys"
      by (simp_all add: Cons_nth_drop_Suc)
    show ?thesis
      using True 1 by (subst and_loop.simps) (simp add: dx dy)
  next
    case False
    then have "drop l1 xs = [] \<or> drop l2 ys = []" by auto
    then have "and_merge (drop l1 xs) (drop l2 ys) = []"
      by (cases "drop l1 xs") auto
    with False show ?thesis by (subst and_loop.simps) auto
  qed
qed

lemma or_loop_merge:
  "or_loop xs ys l1 l2 res = res @ or_merge (drop l1 xs) (drop l2 ys)"
proof (induction xs ys l1 l2 res rule: or_loop.induct)
  case (1 xs ys l1 l2 res)
  show ?case
  proof (cases "l1 < length xs \<and> l2 < length ys")
    case True
    then have dx: "drop l1 xs = xs ! l1 # drop (Suc l1) xs"
      and dy: "drop l2 ys = ys ! l2 # drop (Suc l2) ys"
      by (simp_all add: Cons_nth_drop_Suc)
    show ?thesis
      using True 1 by (subst or_loop.simps) (simp add: dx dy)
  next
    case False
    then have "drop l1 xs = [] \<or> drop l2 ys = []" by auto
    then have "or_merge (drop l1 xs) (drop l2 ys) = drop l1 xs @ drop l2 ys"
      by (cases "drop l1 xs") auto
    with False show ?thesis by (subst or_loop.simps) auto
  qed
qed

lemma not_loop_merge:
  "not_loop xs ys l1 l2 res = res @ not_merge (drop l1 xs) (drop l2 ys)"
proof (induction xs ys l1 l2 res rule: not_loop.induct)
  case (1 xs ys l1 l2 res)
  show ?case
  proof (cases "l1 < length xs \<and> l2 < length ys")
    case True
    then have dx: "drop l1 xs = xs ! l1 # drop (Suc l1) xs"
      and dy: "drop l2 ys = ys ! l2 # drop (Suc l2) ys"
      by (simp_all add: Cons_nth_drop_Suc)
    show ?thesis
      using True 1 by (subst not_loop.simps) (simp add: dx dy)
  next
    case False
    then have "drop l1 xs = [] \<or> drop l2 ys = []" by auto
    then have "not_merge (drop l1 xs) (drop l2 ys) = drop l1 xs"
      by (cases "drop l1 xs") auto
    with False show ?thesis by (subst not_loop.simps) auto
  qed
qed

lemma and_query_merge: "and_query xs ys = and_merge xs ys"
  by (simp add: and_query_def and_loop_merge)

lemma or_query_merge: "or_query xs ys = or_merge xs ys"
  by (simp add: or_query_def or_loop_merge)

lemma not_query_merge: "not_query xs ys = not_merge xs ys"
  by (simp add: not_query_def not_loop_merge)



subsection \<open>Properties of the list recursions\<close>

lemma and_merge_filter:
  "sorted_wrt (<) xs \<Longrightarrow> sorted_wrt (<) ys \<Longrightarrow> and_merge xs ys = filter (\<lambda>x. x \<in> set ys) xs"
proof (induction xs ys rule: and_merge.induct)
  case (1 x xs y ys)
  from 1(4,5) have sx: "sorted_wrt (<) xs" and sy: "sorted_wrt (<) ys"
    and gx: "\<forall>z\<in>set xs. x < z" and gy: "\<forall>z\<in>set ys. y < z" by auto
  consider "x = y" | "x < y" | "y < x" by linarith
  then show ?case
  proof cases
    case 1
    have "filter (\<lambda>z. z \<in> set (y # ys)) xs = filter (\<lambda>z. z \<in> set ys) xs"
      using gx 1 by (intro filter_cong) auto
    then show ?thesis using 1 "1.IH"(1) sx sy by simp
  next
    case 2
    then have "x \<notin> set (y # ys)" using gy by auto
    then show ?thesis using 2 "1.IH"(2) sx "1.prems"(2) by simp
  next
    case 3
    then have "y \<notin> set (x # xs)" using gx by auto
    then have "filter (\<lambda>z. z \<in> set (y # ys)) (x # xs) = filter (\<lambda>z. z \<in> set ys) (x # xs)"
      by (intro filter_cong) auto
    then show ?thesis using 3 "1.IH"(3) sy "1.prems"(1) by simp
  qed
qed auto

lemma not_merge_filter:
  "sorted_wrt (<) xs \<Longrightarrow> sorted_wrt (<) ys \<Longrightarrow> not_merge xs ys = filter (\<lambda>x. x \<notin> set ys) xs"
proof (induction xs ys rule: not_merge.induct)
  case (1 x xs y ys)
  from 1(4,5) have sx: "sorted_wrt (<) xs" and sy: "sorted_wrt (<) ys"
    and gx: "\<forall>z\<in>set xs. x < z" and gy: "\<forall>z\<in>set ys. y < z" by auto
  consider "x = y" | "x < y" | "y < x" by linarith
  then show ?case
  proof cases
    case 1
    have "filter (\<lambda>z. z \<notin> set (y # ys)) xs = filter (\<lambda>z. z \<notin> set ys) xs"
      using gx 1 by (intro filter_cong) auto
    then show ?thesis using 1 "1.IH"(1) sx sy by simp
  next
    case 2
    then have "x \<notin> set (y # ys)" using gy by auto
    then show ?thesis using 2 "1.IH"(2) sx "1.prems"(2) by simp
  next
    case 3
    then have "y \<notin> set (x # xs)" using gx by auto
    then have "filter (\<lambda>z. z \<notin> set (y # ys)) (x # xs) = filter (\<lambda>z. z \<notin> set ys) (x # xs)"
      by (intro filter_cong) auto
    then show ?thesis using 3 "1.IH"(3) sy "1.prems"(1) by simp
  qed
qed auto

lemma or_merge_set: "set (or_merge xs ys) = set xs \<union> set ys"
  by (induction xs ys rule: or_merge.induct) auto

lemma or_merge_sorted:
  "sorted_wrt (<) xs \<Longrightarrow> sorted_wrt (<) ys \<Longrightarrow> sorted_wrt (<) (or_merge xs ys)"
proof (induction xs ys rule: or_merge.induct)
  case (1 x xs y ys)
  from 1(4,5) have sx: "sorted_wrt (<) xs" and sy: "sorted_wrt (<) ys"
    and gx: "\<forall>z\<in>set xs. x < z" and gy: "\<forall>z\<in>set ys. y < z" by auto
  consider "x = y" | "x < y" | "y < x" by linarith
  then show ?case
  proof cases
    case 1
    then show ?thesis using "1.IH"(1) sx sy gx gy by (simp add: or_merge_set) blast
  next
    case 2
    have "\<forall>z\<in>set (y # ys). x < z" using 2 gy by auto
    then show ?thesis using 2 "1.IH"(2) sx "1.prems"(2) gx by (simp add: or_merge_set) blast
  next
    case 3
    have "\<forall>z\<in>set (x # xs). y < z" using 3 gx by auto
    then show ?thesis using 3 "1.IH"(3) sy "1.prems"(1) gy by (simp add: or_merge_set) blast
  qed
qed simp_all

lemma and_merge_subseq1: "subseq (and_merge xs ys) xs"
  by (induction xs ys rule: and_merge.induct) auto

lemma and_merge_subseq2: "subseq (and_merge xs ys) ys"
  by (induction xs ys rule: and_merge.induct) auto

lemma and_merge_same: "and_merge xs xs = xs"
  by (induction xs) auto

lemma or_merge_same: "or_merge xs xs = xs"
  by (induction xs) auto

lemma and_merge_commute: "and_merge xs ys = and_merge ys xs"
  by (induction xs ys rule: and_merge.induct) auto

lemma or_merge_length: "length (or_merge xs ys) \<le> length xs + length ys"
  by (induction xs ys rule: or_merge.induct) auto

lemma and_merge_length: "length (and_merge xs ys) \<le> min (length xs) (length ys)"
  by (induction xs ys rule: and_merge.induct) auto

lemma count_list_distinct: "distinct xs \<Longrightarrow> x \<in> set xs \<Longrightarrow> count_list xs x = 1"
  by (induction xs) auto

subsection \<open>Small facts about lists and dictionaries\<close>

lemma sorted_wrt_map_int_upt: "sorted_wrt (<) (map int [0 ..< N])"
  by (simp add: sorted_wrt_map sorted_wrt_upt)

lemma update_fresh: "k \<notin> fst ` set d \<Longrightarrow> AList.update k v d = d @ [(k, v)]"
  by (induction d) auto

section \<open>Query evaluation\<close>

lemma example_index_built: "InvertedIndex_init example_parsed = Inr example_index"
  by code_simp

lemma example_retrieval_eq:
  "example_retrieval = \<lparr>inverted_index = example_index, all_docs = [0, 1, 2]\<rparr>"
  by code_simp

lemma split_on_last: "sep \<notin> set t \<Longrightarrow> split_on sep w t = [w @ t]"
  by (induction t arbitrary: w) auto

lemma split_on_piece:
  "sep \<notin> set t \<Longrightarrow> split_on sep w (t @ sep # rest) = (w @ t) # split_on sep [] rest"
  by (induction t arbitrary: w) auto

lemma split_on_nonempty: "split_on sep w s \<noteq> []"
  by (induction s arbitrary: w) auto

lemma remove_newlines_id: "CHR 0x0A \<notin> set s \<Longrightarrow> remove_newlines s = s"
  by (auto simp: remove_newlines_def filter_id_conv)

lemma getitem_value: "fst (defaultdict_getitem d k) = lookup d k"
  by (simp add: defaultdict_getitem_def lookup_def split: option.splits)

lemma getitem_lookup: "lookup (snd (defaultdict_getitem d k)) k' = lookup d k'"
  by (auto simp: defaultdict_getitem_def lookup_def update_conv' split: option.splits)

lemma get_posting_list_lookup: "get_posting_list idx t = lookup (posting_list idx) t"
  by (simp add: get_posting_list_def lookup_def)

lemma eval_loop_term:
  "w \<notin> operators \<Longrightarrow> eval_loop docs d stack (w # ws)
     = eval_loop docs (snd (defaultdict_getitem d (str_lower w))) (lookup d (str_lower w) # stack) ws"
  by (simp add: getitem_value [symmetric] split: prod.splits)

lemma AND_op: "''AND'' \<in> operators" and OR_op: "''OR'' \<in> operators" and NOT_op: "''NOT'' \<in> operators"
  by (simp_all add: operators_def)

lemma eval_loop_AND:
  "eval_loop docs d (list2 # list1 # stack) (''AND'' # ws)
     = eval_loop docs d (and_query list1 list2 # stack) ws"
  by (simp add: AND_op)

lemma finish_two: "finish [list2, list1] = Inr (and_query list1 list2)"
  by (simp add: finish_def)

lemma finish_one: "finish [v] = Inr v"
  by (simp add: finish_def)

lemma two_terms_tokens:
  assumes "CHR '' '' \<notin> set (t1 @ t2)" and "CHR 0x0A \<notin> set (t1 @ t2)"
  shows "str_split_space (remove_newlines (t1 @ '' '' @ t2)) = [t1, t2]"
    and "str_split_space (remove_newlines (t1 @ '' '' @ t2 @ '' AND'')) = [t1, t2, ''AND'']"
proof -
  have "remove_newlines (t1 @ '' '' @ t2) = t1 @ '' '' @ t2"
    using assms(2) by (intro remove_newlines_id) auto
  moreover have "split_on (CHR '' '') [] (t1 @ CHR '' '' # t2) = [t1, t2]"
    using assms(1) by (simp add: split_on_piece split_on_last)
  ultimately show "str_split_space (remove_newlines (t1 @ '' '' @ t2)) = [t1, t2]"
    by (simp add: str_split_space_def)
  have "remove_newlines (t1 @ '' '' @ t2 @ '' AND'') = t1 @ '' '' @ t2 @ '' AND''"
    using assms(2) by (intro remove_newlines_id) auto
  moreover have "split_on (CHR '' '') [] (t1 @ CHR '' '' # t2 @ CHR '' '' # ''AND'') = [t1, t2, ''AND'']"
    using assms(1) by (simp add: split_on_piece)
  ultimately show "str_split_space (remove_newlines (t1 @ '' '' @ t2 @ '' AND'')) = [t1, t2, ''AND'']"
    by (simp add: str_split_space_def)
qed

lemma eval_loop_depth:
  "(case fst (eval_loop docs d stack ws) of
      Inl e \<Rightarrow> e = IndexError \<and> underflows (length stack) ws
    | Inr stack' \<Rightarrow> \<not> underflows (length stack) ws \<and> length stack' = final_depth (length stack) ws)"
proof (induction ws arbitrary: d stack)
  case Nil
  show ?case by simp
next
  case (Cons w ws)
  show ?case
  proof (cases "w \<in> operators")
    case False
    then show ?thesis
      using Cons.IH [where d = "snd (defaultdict_getitem d (str_lower w))"
          and stack = "lookup d (str_lower w) # stack"]
      by (simp add: eval_loop_term del: eval_loop.simps(2) split: sum.splits)
  next
    case True
    then consider "w = ''AND''" | "w = ''OR''" | "w = ''NOT''"
      by (auto simp: operators_def)
    then show ?thesis
    proof cases
      case 1
      show ?thesis
      proof (cases stack)
        case Nil
        then show ?thesis using 1 by (simp add: AND_op split: sum.splits)
      next
        case (Cons list2 rest)
        show ?thesis
        proof (cases rest)
          case Nil
          then show ?thesis using 1 Cons by (simp add: AND_op split: sum.splits)
        next
          case (Cons list1 stack')
          then show ?thesis
            using 1 \<open>stack = list2 # rest\<close> Cons.IH [where d = d and stack = "and_query list1 list2 # stack'"]
            by (simp add: AND_op split: sum.splits)
        qed
      qed
    next
      case 2
      show ?thesis
      proof (cases stack)
        case Nil
        then show ?thesis using 2 by (simp add: OR_op split: sum.splits)
      next
        case (Cons list2 rest)
        show ?thesis
        proof (cases rest)
          case Nil
          then show ?thesis using 2 Cons by (simp add: OR_op split: sum.splits)
        next
          case (Cons list1 stack')
          then show ?thesis
            using 2 \<open>stack = list2 # rest\<close> Cons.IH [where d = d and stack = "or_query list1 list2 # stack'"]
            by (simp add: OR_op split: sum.splits)
        qed
      qed
    next
      case 3
      show ?thesis
      proof (cases stack)
        case Nil
        then show ?thesis using 3 by (simp add: NOT_op split: sum.splits)
      next
        case (Cons list1 stack')
        then show ?thesis
          using 3 Cons.IH [where d = d and stack = "not_query docs list1 # stack'"]
          by (simp add: NOT_op split: sum.splits)
      qed
    qed
  qed
qed

lemma final_depth_pos:
  "\<not> underflows n ws \<Longrightarrow> 0 < n \<or> ws \<noteq> [] \<Longrightarrow> 0 < final_depth n ws"
proof (induction n ws rule: final_depth.induct)
  case (1 n)
  then show ?case by simp
next
  case (2 n w ws)
  then show ?case
    by (cases "w \<in> operators"; cases "w = ''NOT''") (auto split: if_splits)
qed

lemma eval_boolean_query_result:
  "fst (eval_boolean_query self query)
     = (case fst (eval_loop (all_docs self) (posting_list (inverted_index self)) []
                    (str_split_space (remove_newlines query))) of
          Inl e \<Rightarrow> Inl e
        | Inr stack \<Rightarrow> finish stack)"
  by (simp add: eval_boolean_query_def split: prod.splits)

lemma example_lower:
  "str_lower ''cat'' = ''cat''" "str_lower ''dog'' = ''dog''" "str_lower ''bird'' = ''bird''"
  "str_lower ''zebra'' = ''zebra''"
  by code_simp+

lemma eval_loop_keeps_lookup: "lookup (snd (eval_loop docs d stack ws)) k = lookup d k"
proof (induction ws arbitrary: d stack)
  case Nil
  show ?case by simp
next
  case (Cons w ws)
  show ?case
  proof (cases "w \<in> operators")
    case False
    then show ?thesis
      using Cons.IH [where d = "snd (defaultdict_getitem d (str_lower w))"
          and stack = "lookup d (str_lower w) # stack"]
      by (simp add: eval_loop_term getitem_lookup del: eval_loop.simps(2))
  next
    case True
    then show ?thesis
      using Cons.IH [where d = d]
      by (auto simp: operators_def split: list.splits)
  qed
qed

lemma latin1_lower: "str_lower Ecole = ecole" "str_lower ecole = ecole" "str_lower ''x'' = ''x''"
  by code_simp+

lemma latin1_index_built: "InvertedIndex_init latin1_parsed = Inr latin1_index"
  by code_simp

lemma latin1_retrieval_eq:
  "latin1_retrieval = \<lparr>inverted_index = latin1_index, all_docs = [0]\<rparr>"
  by code_simp

lemma latin1_words:
  "Ecole \<notin> operators" "''x'' \<notin> operators"
  "CHR '' '' \<notin> set (Ecole @ ''x'')" "CHR 0x0A \<notin> set (Ecole @ ''x'')"
  by code_simp+

text \<open>
  A capital letter outside A to Z is lowered before the lookup, and a no-break space or a
  next-line character separates words and is stripped from an identifier.
\<close>

lemma latin1_term_found:
  "eval_loop [0] [(ecole, [0])] [] [Ecole] = (Inr [[0]], [(ecole, [0])])"
  by code_simp

lemma latin1_split_strip:
  "str_split (ecole @ [CHR 0xA0] @ ''x'') = [ecole, ''x'']"
  "str_strip ([CHR 0xA0] @ ''D1'' @ [CHR 0x85]) = ''D1''"
  by code_simp+

section \<open>Index construction\<close>

lemma lookup_update: "lookup (AList.update k v d) k' = (if k' = k then v else lookup d k')"
  by (simp add: lookup_def update_conv')

lemma lookup_absent: "k \<notin> fst ` set d \<Longrightarrow> lookup d k = []"
  by (simp add: lookup_def map_of_eq_None_iff [THEN iffD2])

lemma lookup_entry: "distinct (map fst d) \<Longrightarrow> (k, v) \<in> set d \<Longrightarrow> lookup d k = v"
  by (simp add: lookup_def)

lemma lookup_append_posting:
  "lookup (append_posting d t i) k = (if k = t then lookup d t @ [i] else lookup d k)"
  by (simp add: append_posting_def defaultdict_getitem_def lookup_def update_conv'
      split: option.splits)

lemma keys_append_posting: "fst ` set (append_posting d t i) = insert t (fst ` set d)"
  by (auto simp: append_posting_def defaultdict_getitem_def dom_update split: option.splits)

lemma distinct_append_posting:
  "distinct (map fst d) \<Longrightarrow> distinct (map fst (append_posting d t i))"
  by (simp add: append_posting_def defaultdict_getitem_def distinct_update split: option.splits)

lemma set_lookup_update_terms:
  "set (lookup (update_terms d ts i) k)
     = set (lookup d k) \<union> (if k \<noteq> [] \<and> k \<in> set ts then {i} else {})"
  by (induction ts arbitrary: d) (auto simp: lookup_append_posting split: if_splits)

lemma keys_update_terms:
  "fst ` set (update_terms d ts i) = fst ` set d \<union> {t \<in> set ts. t \<noteq> []}"
  by (induction ts arbitrary: d) (auto simp: keys_append_posting)

lemma distinct_update_terms:
  "distinct (map fst d) \<Longrightarrow> distinct (map fst (update_terms d ts i))"
  by (induction ts arbitrary: d) (auto simp: distinct_append_posting)

lemma split_ws_no_empty: "[] \<notin> set (split_ws w s)"
  by (induction s arbitrary: w) auto

lemma str_split_no_empty: "t \<in> set (str_split s) \<Longrightarrow> t \<noteq> []"
  using split_ws_no_empty [of "[]" s] by (auto simp: str_split_def)

lemma upt_Suc_shift: "map f [0 ..< Suc n] = f 0 # map (\<lambda>j. f (Suc j)) [0 ..< n]"
proof -
  have "[0 ..< Suc n] = 0 # map Suc [0 ..< n]"
    by (simp add: upt_conv_Cons map_Suc_upt del: upt_Suc)
  then show ?thesis
    by (simp add: comp_def del: upt_Suc)
qed

lemma doc_ids_filter:
  "doc_ids k i parsed
     = filter (\<lambda>x. k \<in> set (str_split (fst (parsed ! nat (x - i)))))
         (map (\<lambda>j. i + int j) [0 ..< length parsed])"
proof (induction parsed arbitrary: i)
  case Nil
  show ?case by simp
next
  case (Cons p rest)
  obtain conts iid where p: "p = (conts, iid)" by (cases p)
  let ?P = "\<lambda>x. k \<in> set (str_split (fst ((p # rest) ! nat (x - i))))"
  let ?Q = "\<lambda>x. k \<in> set (str_split (fst (rest ! nat (x - (i + 1)))))"
  have m: "map (\<lambda>j. i + int j) [0 ..< length (p # rest)]
      = i # map (\<lambda>j. i + 1 + int j) [0 ..< length rest]"
    using upt_Suc_shift [of "\<lambda>j. i + int j" "length rest"] by (simp add: add.assoc del: upt_Suc)
  have "filter ?P (map (\<lambda>j. i + 1 + int j) [0 ..< length rest])
      = filter ?Q (map (\<lambda>j. i + 1 + int j) [0 ..< length rest])"
  proof (rule filter_cong [OF refl])
    fix x assume "x \<in> set (map (\<lambda>j. i + 1 + int j) [0 ..< length rest])"
    then obtain j where x: "x = i + 1 + int j" by auto
    have "nat (x - i) = Suc j" "nat (x - (i + 1)) = j"
      unfolding x by simp_all
    then show "?P x = ?Q x" by simp
  qed
  then have "filter ?P (map (\<lambda>j. i + int j) [0 ..< length (p # rest)])
      = (if k \<in> set (str_split conts) then [i] else []) @ doc_ids k (i + 1) rest"
    unfolding m using Cons.IH [of "i + 1"] by (simp add: p)
  then show ?case
    by (simp add: p)
qed

lemma doc_ids_sorted: "sorted_wrt (<) (doc_ids k i parsed)"
proof -
  have "sorted_wrt (<) (map (\<lambda>j. i + int j) [0 ..< length parsed])"
    by (simp add: sorted_wrt_map sorted_wrt_upt)
  then show ?thesis
    unfolding doc_ids_filter by (rule sorted_wrt_filter)
qed

lemma doc_ids_range: "set (doc_ids k i parsed) \<subseteq> {i ..< i + int (length parsed)}"
  unfolding doc_ids_filter by auto

lemma index_loop_documents:
  "\<forall>k \<in> fst ` set (documents self). k < i \<Longrightarrow>
   documents (index_loop parsed i self)
     = documents self
       @ map (\<lambda>j. (i + int j, \<lparr>contents = fst (parsed ! j), internal_id = str_strip (snd (parsed ! j))\<rparr>))
           [0 ..< length parsed]"
proof (induction parsed arbitrary: i self)
  case Nil
  show ?case by simp
next
  case (Cons p rest)
  obtain conts iid where p: "p = (conts, iid)" by (cases p)
  let ?doc = "\<lparr>contents = conts, internal_id = str_strip iid\<rparr>"
  let ?self = "update_posting_list (self\<lparr>documents := AList.update i ?doc (documents self)\<rparr>) conts i"
  from Cons.prems have "i \<notin> fst ` set (documents self)" by auto
  then have d: "documents ?self = documents self @ [(i, ?doc)]"
    by (simp add: update_posting_list_def update_fresh)
  with Cons.prems have "\<forall>k \<in> fst ` set (documents ?self). k < i + 1"
    by auto
  from Cons.IH [OF this] have "documents (index_loop rest (i + 1) ?self)
     = documents self @ (i, ?doc)
       # map (\<lambda>j. (i + 1 + int j, \<lparr>contents = fst (rest ! j), internal_id = str_strip (snd (rest ! j))\<rparr>))
           [0 ..< length rest]"
    by (simp add: d)
  moreover have "map (\<lambda>j. (i + int j, \<lparr>contents = fst ((p # rest) ! j), internal_id = str_strip (snd ((p # rest) ! j))\<rparr>))
           [0 ..< length (p # rest)]
      = (i, ?doc) # map (\<lambda>j. (i + 1 + int j, \<lparr>contents = fst (rest ! j), internal_id = str_strip (snd (rest ! j))\<rparr>))
           [0 ..< length rest]"
    using upt_Suc_shift [of "\<lambda>j. (i + int j, \<lparr>contents = fst ((p # rest) ! j), internal_id = str_strip (snd ((p # rest) ! j))\<rparr>)" "length rest"]
    by (simp add: p add.assoc del: upt_Suc)
  ultimately show ?case
    by (simp add: p del: upt_Suc)
qed

lemma posting_list_update_posting_list:
  "posting_list (update_posting_list self doc i) = update_terms (posting_list self) (str_split doc) i"
  by (simp add: update_posting_list_def)

lemma index_loop_postings:
  "set (lookup (posting_list (index_loop parsed i self)) k)
     = set (lookup (posting_list self) k) \<union> set (doc_ids k i parsed)"
proof (induction parsed arbitrary: i self)
  case Nil
  show ?case by simp
next
  case (Cons p rest)
  obtain conts iid where p: "p = (conts, iid)" by (cases p)
  show ?case
    unfolding p index_loop.simps Cons.IH
    by (auto simp: posting_list_update_posting_list set_lookup_update_terms
        dest: str_split_no_empty)
qed

lemma index_loop_keys:
  "fst ` set (posting_list (index_loop parsed i self))
     = fst ` set (posting_list self) \<union> (\<Union>p \<in> set parsed. set (str_split (fst p)))"
proof (induction parsed arbitrary: i self)
  case Nil
  show ?case by simp
next
  case (Cons p rest)
  obtain conts iid where p: "p = (conts, iid)" by (cases p)
  show ?case
    unfolding p index_loop.simps Cons.IH
    by (auto simp: posting_list_update_posting_list keys_update_terms
        dest: str_split_no_empty)
qed

lemma index_loop_distinct:
  "distinct (map fst (posting_list self)) \<Longrightarrow>
   distinct (map fst (posting_list (index_loop parsed i self)))"
proof (induction parsed arbitrary: i self)
  case Nil
  then show ?case by simp
next
  case (Cons p rest)
  obtain conts iid where p: "p = (conts, iid)" by (cases p)
  show ?case
    unfolding p index_loop.simps
    by (rule Cons.IH) (simp add: posting_list_update_posting_list distinct_update_terms Cons.prems)
qed

lemma lookup_empty: "lookup [] k = []"
  by (simp add: lookup_def)

lemma sort_remdups_idem: "sort (remdups (sort (remdups xs))) = sort (remdups (xs :: int list))"
proof -
  have "remdups (sort (remdups xs)) = sort (remdups xs)"
    by simp
  then show ?thesis
    by (simp add: sorted_sort_id)
qed

lemma sort_remdups_strict: "sorted_wrt (<) (sort (remdups (xs :: int list)))"
  by (simp add: strict_sorted_iff)

lemma sort_of_any_enumeration:
  "distinct ys \<Longrightarrow> set ys = set xs \<Longrightarrow> sort ys = sort (remdups (xs :: int list))"
  by (intro sorted_distinct_set_unique) simp_all

lemma sort_one_ok:
  "set xs \<subseteq> fst ` set docs \<Longrightarrow> sort_one docs xs = Inr (sort (remdups xs))"
proof -
  assume a: "set xs \<subseteq> fst ` set docs"
  have "\<forall>x \<in> set xs. map_of docs x \<noteq> None"
  proof
    fix x assume "x \<in> set xs"
    with a have "x \<in> fst ` set docs" by blast
    then show "map_of docs x \<noteq> None"
      by (simp add: map_of_eq_None_iff)
  qed
  then show ?thesis
    by (simp add: sort_one_def list_all_iff)
qed

lemma sort_terms_ok:
  "\<forall>k. set (lookup d k) \<subseteq> fst ` set docs \<Longrightarrow>
   \<exists>d'. sort_terms docs d ks = Inr d'
     \<and> (\<forall>k. lookup d' k = (if k \<in> set ks then sort (remdups (lookup d k)) else lookup d k))
     \<and> (set ks \<subseteq> fst ` set d \<longrightarrow> map fst d' = map fst d)"
proof (induction ks arbitrary: d)
  case Nil
  show ?case by simp
next
  case (Cons k ks)
  let ?v = "sort (remdups (lookup d k))"
  let ?d1 = "AList.update k ?v d"
  from Cons.prems have s: "sort_one docs (fst (defaultdict_getitem d k)) = Inr ?v"
    by (simp add: getitem_value sort_one_ok)
  have l1: "\<And>k'. lookup ?d1 k' = (if k' = k then ?v else lookup d k')"
    by (rule lookup_update)
  have "\<forall>k'. set (lookup ?d1 k') \<subseteq> fst ` set docs"
    using Cons.prems by (simp add: l1)
  from Cons.IH [OF this] obtain d' where
    r: "sort_terms docs ?d1 ks = Inr d'"
    and l: "\<forall>k'. lookup d' k' = (if k' \<in> set ks then sort (remdups (lookup ?d1 k')) else lookup ?d1 k')"
    and m: "set ks \<subseteq> fst ` set ?d1 \<longrightarrow> map fst d' = map fst ?d1"
    by blast
  have "sort_terms docs d (k # ks) = Inr d'"
    by (simp add: s r)
  moreover have "\<forall>k'. lookup d' k' = (if k' \<in> set (k # ks) then sort (remdups (lookup d k')) else lookup d k')"
    using l by (simp add: l1 sort_remdups_idem)
  moreover have "set (k # ks) \<subseteq> fst ` set d \<longrightarrow> map fst d' = map fst d"
  proof
    assume a: "set (k # ks) \<subseteq> fst ` set d"
    then have "map fst ?d1 = map fst d"
      by (simp add: update_keys)
    moreover from a have "set ks \<subseteq> fst ` set ?d1"
      by (auto simp: dom_update)
    ultimately show "map fst d' = map fst d"
      using m by simp
  qed
  ultimately show ?case by blast
qed

lemma init_result:
  "\<exists>idx. InvertedIndex_init parsed = Inr idx
    \<and> documents idx
        = map (\<lambda>j. (int j, \<lparr>contents = fst (parsed ! j), internal_id = str_strip (snd (parsed ! j))\<rparr>))
            [0 ..< length parsed]
    \<and> (\<forall>k. lookup (posting_list idx) k = doc_ids k 0 parsed)
    \<and> distinct (map fst (posting_list idx))
    \<and> fst ` set (posting_list idx) = (\<Union>p \<in> set parsed. set (str_split (fst p)))"
proof -
  let ?e = "\<lparr>documents = [], posting_list = []\<rparr>"
  let ?raw = "index_loop parsed 0 ?e"
  have docs: "documents ?raw
      = map (\<lambda>j. (int j, \<lparr>contents = fst (parsed ! j), internal_id = str_strip (snd (parsed ! j))\<rparr>))
            [0 ..< length parsed]"
    using index_loop_documents [of ?e 0 parsed] by simp
  have "fst ` set (documents ?raw) = int ` {0 ..< length parsed}"
    unfolding docs by (simp add: image_image)
  then have ids: "fst ` set (documents ?raw) = {0 ..< int (length parsed)}"
    by (simp add: image_int_atLeastLessThan)
  have raw: "\<And>k. set (lookup (posting_list ?raw) k) = set (doc_ids k 0 parsed)"
    by (simp add: index_loop_postings lookup_empty)
  have "\<forall>k. set (lookup (posting_list ?raw) k) \<subseteq> fst ` set (documents ?raw)"
    unfolding raw ids using doc_ids_range [of _ 0 parsed] by simp
  from sort_terms_ok [OF this, of "map fst (posting_list ?raw)"] obtain d' where
    r: "sort_terms (documents ?raw) (posting_list ?raw) (map fst (posting_list ?raw)) = Inr d'"
    and l: "\<forall>k. lookup d' k = (if k \<in> fst ` set (posting_list ?raw)
               then sort (remdups (lookup (posting_list ?raw) k)) else lookup (posting_list ?raw) k)"
    and m: "map fst d' = map fst (posting_list ?raw)"
    by auto
  have l': "lookup d' k = doc_ids k 0 parsed" for k
  proof -
    have "lookup d' k = sort (remdups (lookup (posting_list ?raw) k))"
      using l by (simp add: lookup_absent)
    moreover have "sort (remdups (lookup (posting_list ?raw) k)) = doc_ids k 0 parsed"
      using doc_ids_sorted [of k 0 parsed]
      by (intro sorted_distinct_set_unique) (simp_all add: raw strict_sorted_iff)
    ultimately show ?thesis by simp
  qed
  have i: "InvertedIndex_init parsed = Inr (?raw\<lparr>posting_list := d'\<rparr>)"
    by (simp add: InvertedIndex_init_def sort_posting_list_def r)
  have dist: "distinct (map fst d')"
    unfolding m by (rule index_loop_distinct) simp
  have keys: "fst ` set d' = (\<Union>p \<in> set parsed. set (str_split (fst p)))"
  proof -
    have "fst ` set d' = set (map fst d')" by simp
    also have "\<dots> = fst ` set (posting_list ?raw)" unfolding m by simp
    also have "\<dots> = (\<Union>p \<in> set parsed. set (str_split (fst p)))"
      by (simp add: index_loop_keys)
    finally show ?thesis .
  qed
  from i docs l' dist keys show ?thesis
    by simp
qed

section \<open>Term frequencies\<close>

lemma foldl_term_frequencies:
  "distinct (map fst d) \<Longrightarrow> fst ` set acc \<inter> fst ` set d = {} \<Longrightarrow>
   foldl (\<lambda>tf (term, doc_ids). AList.update term (length doc_ids) tf) acc d
     = acc @ map (\<lambda>(t, ids). (t, length ids)) d"
proof (induction d arbitrary: acc)
  case Nil
  show ?case by simp
next
  case (Cons p d)
  obtain t ids where p: "p = (t, ids)" by (cases p)
  from Cons.prems have fresh: "t \<notin> fst ` set acc" and dist: "distinct (map fst d)"
    and t: "t \<notin> fst ` set d"
    by (auto simp: p)
  from Cons.prems t have "fst ` set (acc @ [(t, length ids)]) \<inter> fst ` set d = {}"
    by (auto simp: p)
  from Cons.IH [OF dist this] fresh show ?case
    by (simp add: p update_fresh)
qed

lemma term_frequencies_map:
  "distinct (map fst d) \<Longrightarrow> term_frequencies d = map (\<lambda>(t, ids). (t, length ids)) d"
  using foldl_term_frequencies [of d "[]"] by (simp add: term_frequencies_def)

lemma sort_key_rev_inj: "inj f \<Longrightarrow> sort_key f (rev xs) = sort_key f xs"
  by (rule sort_key_inj_key_eq) (simp_all add: inj_on_def inj_def)

lemma frequency_key_inj: "inj (\<lambda>p :: string \<times> nat. (snd p, fst p))"
  by (auto simp: inj_def prod_eq_iff)

lemma py_sorted_frequency_key:
  "py_sorted (\<lambda>p :: string \<times> nat. (snd p, fst p)) reverse xs
     = (if reverse then rev (sort_key (\<lambda>p. (snd p, fst p)) xs) else sort_key (\<lambda>p. (snd p, fst p)) xs)"
  by (simp add: py_sorted_def sort_key_rev_inj [OF frequency_key_inj])

lemma slice_to_take: "0 \<le> n \<Longrightarrow> slice_to n xs = take (nat n) xs"
  by (simp add: slice_to_def)

lemma sort_key_strict:
  "inj f \<Longrightarrow> distinct xs \<Longrightarrow> sorted_wrt (\<lambda>a b. f a < f b) (sort_key f xs)"
proof -
  assume i: "inj f" and d: "distinct xs"
  have "sorted (map f (sort_key f xs))" by simp
  moreover have "distinct (map f (sort_key f xs))"
    using i d by (simp add: distinct_map inj_on_def inj_def)
  ultimately have "sorted_wrt (<) (map f (sort_key f xs))"
    by (simp add: strict_sorted_iff)
  then show ?thesis
    by (simp add: sorted_wrt_map)
qed

lemma abc_sorted: "sorted (map (\<lambda>p :: string \<times> nat. (snd p, fst p)) [(''b'', 3), (''a'', 5), (''c'', 5)])"
  by code_simp

lemma keys_of_frequencies: "map fst (map (\<lambda>(t, ids). (t, length ids)) d) = map fst d"
  by (induction d) auto

section \<open>The claims\<close>

text \<open>
  C1. The claim: evaluating a query leaves the posting store as it was, the same keys with
  the same lists, also when the query has a term that the index does not have. The code
  does not keep the keys: the evaluation reads a term with \<^verbatim>\<open>posting_list[word.lower()]\<close>
  on a \<^verbatim>\<open>defaultdict\<close>, which stores the empty list under a key it does not have, where
  \<open>get_posting_list\<close> reads with \<^verbatim>\<open>get\<close> and stores nothing. On the small collection the
  query \<^verbatim>\<open>zebra\<close> returns the empty result and leaves a fourth key \<^verbatim>\<open>zebra\<close> in the
  store, which \<open>top_bottom_n_terms\<close> then reports as the least frequent term. (The
  list found under every key is the same before and after: lemma
  \<open>eval_loop_keeps_lookup\<close>.)
\<close>

theorem eval_inserts_absent_term:
  "fst (eval_boolean_query example_retrieval ''zebra'') = Inr []
   \<and> posting_list (inverted_index example_retrieval)
       = [(''cat'', [0, 2]), (''dog'', [0, 1]), (''bird'', [1, 2])]
   \<and> posting_list (inverted_index (snd (eval_boolean_query example_retrieval ''zebra'')))
       = [(''cat'', [0, 2]), (''dog'', [0, 1]), (''bird'', [1, 2]), (''zebra'', [])]
   \<and> top_bottom_n_terms (inverted_index example_retrieval) 1 False = [(''bird'', 2)]
   \<and> top_bottom_n_terms (inverted_index (snd (eval_boolean_query example_retrieval ''zebra''))) 1 False
       = [(''zebra'', 0)]"
proof -
  have e: "eval_boolean_query example_retrieval ''zebra''
     = (Inr [], example_retrieval\<lparr>inverted_index := example_index\<lparr>posting_list :=
          [(''cat'', [0, 2]), (''dog'', [0, 1]), (''bird'', [1, 2]), (''zebra'', [])]\<rparr>\<rparr>)"
    by (simp add: eval_boolean_query_def example_retrieval_eq example_index_def
        str_split_space_def remove_newlines_def operators_def example_lower defaultdict_getitem_def
        finish_def)
  have p: "posting_list (inverted_index example_retrieval)
       = [(''cat'', [0, 2]), (''dog'', [0, 1]), (''bird'', [1, 2])]"
    by (simp add: example_retrieval_eq example_index_def)
  have t1: "top_bottom_n_terms (inverted_index example_retrieval) 1 False = [(''bird'', 2)]"
    by code_simp
  have t2: "top_bottom_n_terms (example_index\<lparr>posting_list :=
          [(''cat'', [0, 2]), (''dog'', [0, 1]), (''bird'', [1, 2]), (''zebra'', [])]\<rparr>) 1 False
       = [(''zebra'', 0)]"
    by code_simp
  from e p t1 t2 show ?thesis
    by (simp add: example_retrieval_eq)
qed

text \<open>
  C2. The claim: the evaluation signals an error exactly when an operator underflows the
  stack or when the stack holds no value or more than two values at the end. The second
  half fails: the code has no check of the final size. With three values left the top one
  is returned.
\<close>

theorem three_values_left_no_error:
  "eval_loop (all_docs example_retrieval) (posting_list (inverted_index example_retrieval)) []
        (str_split_space (remove_newlines ''cat dog bird''))
       = (Inr [[1, 2], [0, 1], [0, 2]], posting_list example_index)
   \<and> length [[1, 2], [0, 1], [0, 2 :: int]] = 3
   \<and> \<not> underflows 0 (str_split_space (remove_newlines ''cat dog bird''))
   \<and> fst (eval_boolean_query example_retrieval ''cat dog bird'') = Inr [1, 2]"
  by (simp add: eval_boolean_query_def example_retrieval_eq example_index_def
        str_split_space_def remove_newlines_def operators_def example_lower defaultdict_getitem_def
        finish_def)

text \<open>
  C2 as amended: the evaluation signals an error, the \<^verbatim>\<open>IndexError\<close> of \<^verbatim>\<open>pop\<close>, exactly
  when an operator underflows the stack. Otherwise the stack is not empty at the end and a
  result is returned: \<open>and_query\<close> of the two values when exactly two are left, the top
  value for every other size.
\<close>

theorem eval_error_iff_underflow:
  "(fst (eval_boolean_query self query) = Inl IndexError
      \<longleftrightarrow> underflows 0 (str_split_space (remove_newlines query)))
   \<and> (\<not> underflows 0 (str_split_space (remove_newlines query)) \<longrightarrow>
        (\<exists>stack d.
           eval_loop (all_docs self) (posting_list (inverted_index self)) []
             (str_split_space (remove_newlines query)) = (Inr stack, d)
           \<and> stack \<noteq> []
           \<and> fst (eval_boolean_query self query)
               = Inr (if length stack = 2 then and_query (stack ! 1) (stack ! 0) else hd stack)))"
proof -
  let ?ws = "str_split_space (remove_newlines query)"
  let ?r = "eval_loop (all_docs self) (posting_list (inverted_index self)) [] ?ws"
  have ne: "?ws \<noteq> []"
    by (simp add: str_split_space_def split_on_nonempty)
  note dp = eval_loop_depth [where docs = "all_docs self"
      and d = "posting_list (inverted_index self)" and stack = "[]" and ws = ?ws]
  show ?thesis
  proof (cases "fst ?r")
    case (Inl e)
    with dp have "e = IndexError" and u: "underflows 0 ?ws"
      by simp_all
    with Inl have "fst (eval_boolean_query self query) = Inl IndexError"
      by (simp add: eval_boolean_query_result)
    with u show ?thesis by simp
  next
    case (Inr stack)
    with dp have nu: "\<not> underflows 0 ?ws" and len: "length stack = final_depth 0 ?ws"
      by simp_all
    from nu ne have "0 < final_depth 0 ?ws"
      by (intro final_depth_pos) simp_all
    with len have sne: "stack \<noteq> []"
      by auto
    from Inr have r: "?r = (Inr stack, snd ?r)"
      by (metis prod.collapse)
    have "finish stack = Inr (if length stack = 2 then and_query (stack ! 1) (stack ! 0) else hd stack)"
      using sne by (cases stack) (simp_all add: finish_def)
    with Inr have f: "fst (eval_boolean_query self query)
        = Inr (if length stack = 2 then and_query (stack ! 1) (stack ! 0) else hd stack)"
      by (simp add: eval_boolean_query_result)
    then have "fst (eval_boolean_query self query) \<noteq> Inl IndexError"
      by simp
    with nu r sne f show ?thesis
      by blast
  qed
qed

theorem eval_error_iff_underflow_witness:
  "\<not> underflows 0 (str_split_space (remove_newlines ''cat dog bird''))
   \<and> eval_loop (all_docs example_retrieval) (posting_list (inverted_index example_retrieval)) []
        (str_split_space (remove_newlines ''cat dog bird''))
       = (Inr [[1, 2], [0, 1], [0, 2]], posting_list example_index)
   \<and> fst (eval_boolean_query example_retrieval ''cat dog bird'') = Inr [1, 2]
   \<and> underflows 0 (str_split_space (remove_newlines ''cat AND''))
   \<and> fst (eval_boolean_query example_retrieval ''cat AND'') = Inl IndexError"
proof -
  have u1: "\<not> underflows 0 (str_split_space (remove_newlines ''cat dog bird''))"
    by (simp add: str_split_space_def remove_newlines_def operators_def)
  have u2: "underflows 0 (str_split_space (remove_newlines ''cat AND''))"
    by (simp add: str_split_space_def remove_newlines_def operators_def)
  have e: "eval_loop (all_docs example_retrieval) (posting_list (inverted_index example_retrieval)) []
        (str_split_space (remove_newlines ''cat dog bird''))
       = (Inr [[1, 2], [0, 1], [0, 2]], posting_list example_index)"
    by (simp add: example_retrieval_eq example_index_def
        str_split_space_def remove_newlines_def operators_def example_lower defaultdict_getitem_def)
  from eval_error_iff_underflow [of example_retrieval "''cat dog bird''"] u1 e
  have r1: "fst (eval_boolean_query example_retrieval ''cat dog bird'') = Inr [1, 2]"
    by auto
  from eval_error_iff_underflow [of example_retrieval "''cat AND''"] u2
  have r2: "fst (eval_boolean_query example_retrieval ''cat AND'') = Inl IndexError"
    by blast
  from u1 u2 e r1 r2 show ?thesis
    by blast
qed

text \<open>
  C3. For strictly ascending lists \<open>A\<close> and \<open>B\<close>, \<open>and_query A B\<close> is strictly ascending
  and holds exactly the values that occur in both; it is a subsequence of \<open>A\<close> and of
  \<open>B\<close>, is at most as long as the shorter of the two, \<open>and_query A A = A\<close>, and the
  two argument orders give the same list.
\<close>

theorem and_query_sorted_intersection:
  assumes "sorted_wrt (<) A" and "sorted_wrt (<) B"
  shows "sorted_wrt (<) (and_query A B)
    \<and> set (and_query A B) = set A \<inter> set B
    \<and> subseq (and_query A B) A \<and> subseq (and_query A B) B
    \<and> length (and_query A B) \<le> min (length A) (length B)
    \<and> and_query A A = A
    \<and> and_query A B = and_query B A"
proof -
  have f: "and_query A B = filter (\<lambda>x. x \<in> set B) A"
    using assms by (simp add: and_query_merge and_merge_filter)
  have "sorted_wrt (<) (and_query A B)"
    unfolding f using assms(1) by (rule sorted_wrt_filter)
  moreover have "set (and_query A B) = set A \<inter> set B"
    unfolding f by auto
  moreover have "subseq (and_query A B) A" "subseq (and_query A B) B"
    by (simp_all add: and_query_merge and_merge_subseq1 and_merge_subseq2)
  moreover have "length (and_query A B) \<le> min (length A) (length B)"
    unfolding and_query_merge by (rule and_merge_length)
  moreover have "and_query A A = A"
    by (simp add: and_query_merge and_merge_same)
  moreover have "and_query A B = and_query B A"
    unfolding and_query_merge by (rule and_merge_commute)
  ultimately show ?thesis by blast
qed

theorem and_query_sorted_intersection_witness:
  "sorted_wrt (<) [1, 3, 5 :: int] \<and> sorted_wrt (<) [3, 4, 5 :: int]
    \<and> and_query [1, 3, 5] [3, 4, 5] = [3, 5]
    \<and> sorted_wrt (<) (and_query [1, 3, 5] [3, 4, 5])
    \<and> set (and_query [1, 3, 5] [3, 4, 5]) = set [1, 3, 5] \<inter> set [3, 4, 5]
    \<and> subseq (and_query [1, 3, 5] [3, 4, 5]) [1, 3, 5]
    \<and> subseq (and_query [1, 3, 5] [3, 4, 5]) [3, 4, 5]
    \<and> length (and_query [1, 3, 5] [3, 4, 5]) \<le> min (length [1, 3, 5 :: int]) (length [3, 4, 5 :: int])
    \<and> and_query [1, 3, 5] [1, 3, 5] = [1, 3, 5]
    \<and> and_query [1, 3, 5] [3, 4, 5] = and_query [3, 4, 5] [1, 3, 5]"
proof -
  have h1: "sorted_wrt (<) [1, 3, 5 :: int]" and h2: "sorted_wrt (<) [3, 4, 5 :: int]"
    by simp_all
  have v: "and_query [1, 3, 5] [3, 4, 5] = [3, 5]"
    by (simp add: and_query_merge)
  from and_query_sorted_intersection [OF h1 h2] h1 h2 v show ?thesis
    by blast
qed

text \<open>
  C4. For strictly ascending lists \<open>A\<close> and \<open>B\<close>, \<open>or_query A B\<close> is strictly ascending
  and without repetition, holds exactly the values of \<open>A\<close> and of \<open>B\<close>, each of them
  once, is at most \<open>|A| + |B|\<close> long, and \<open>or_query A A = A\<close>.
\<close>

theorem or_query_sorted_union:
  assumes "sorted_wrt (<) A" and "sorted_wrt (<) B"
  shows "sorted_wrt (<) (or_query A B)
    \<and> distinct (or_query A B)
    \<and> set (or_query A B) = set A \<union> set B
    \<and> (\<forall>x \<in> set A \<union> set B. count_list (or_query A B) x = 1)
    \<and> length (or_query A B) \<le> length A + length B
    \<and> or_query A A = A"
proof -
  have s: "sorted_wrt (<) (or_query A B)"
    unfolding or_query_merge using assms by (rule or_merge_sorted)
  then have d: "distinct (or_query A B)"
    by (simp add: strict_sorted_iff)
  have e: "set (or_query A B) = set A \<union> set B"
    by (simp add: or_query_merge or_merge_set)
  have c: "\<forall>x \<in> set A \<union> set B. count_list (or_query A B) x = 1"
    using d e by (simp add: count_list_distinct)
  have l: "length (or_query A B) \<le> length A + length B"
    unfolding or_query_merge by (rule or_merge_length)
  have i: "or_query A A = A"
    by (simp add: or_query_merge or_merge_same)
  from s d e c l i show ?thesis by blast
qed

theorem or_query_sorted_union_witness:
  "sorted_wrt (<) [1, 3, 5 :: int] \<and> sorted_wrt (<) [3, 4 :: int]
    \<and> or_query [1, 3, 5] [3, 4] = [1, 3, 4, 5]
    \<and> sorted_wrt (<) (or_query [1, 3, 5] [3, 4])
    \<and> distinct (or_query [1, 3, 5] [3, 4])
    \<and> set (or_query [1, 3, 5] [3, 4]) = set [1, 3, 5] \<union> set [3, 4]
    \<and> count_list (or_query [1, 3, 5] [3, 4]) 3 = 1
    \<and> length (or_query [1, 3, 5] [3, 4]) \<le> length [1, 3, 5 :: int] + length [3, 4 :: int]
    \<and> or_query [1, 3, 5] [1, 3, 5] = [1, 3, 5]"
proof -
  have h1: "sorted_wrt (<) [1, 3, 5 :: int]" and h2: "sorted_wrt (<) [3, 4 :: int]"
    by simp_all
  have v: "or_query [1, 3, 5] [3, 4] = [1, 3, 4, 5]"
    by (simp add: or_query_merge)
  have m: "(3::int) \<in> set [1, 3, 5] \<union> set [3, 4]" by simp
  from or_query_sorted_union [OF h1 h2] have
    "sorted_wrt (<) (or_query [1, 3, 5] [3, 4])"
    "distinct (or_query [1, 3, 5] [3, 4])"
    "set (or_query [1, 3, 5] [3, 4]) = set [1, 3, 5] \<union> set [3, 4]"
    "\<forall>x \<in> set [1, 3, 5] \<union> set [3, 4]. count_list (or_query [1, 3, 5] [3, 4]) x = 1"
    "length (or_query [1, 3, 5] [3, 4]) \<le> length [1, 3, 5 :: int] + length [3, 4 :: int]"
    "or_query [1, 3, 5] [1, 3, 5] = [1, 3, 5]"
    by blast+
  with h1 h2 v m show ?thesis by blast
qed


text \<open>
  C5. For a strictly ascending list \<open>B\<close> whose elements lie in the universe
  \<open>U = [0, ..., N - 1]\<close>, \<open>not_query U B\<close> is \<open>U\<close> without the elements of \<open>B\<close>, in
  ascending order; \<open>and_query B (not_query U B)\<close> is empty, and complementing twice gives
  \<open>B\<close> back.
\<close>

theorem not_query_complement:
  assumes "sorted_wrt (<) B" and "set B \<subseteq> set (map int [0 ..< N])"
  shows "not_query (map int [0 ..< N]) B = filter (\<lambda>x. x \<notin> set B) (map int [0 ..< N])
    \<and> sorted_wrt (<) (not_query (map int [0 ..< N]) B)
    \<and> set (not_query (map int [0 ..< N]) B) = set (map int [0 ..< N]) - set B
    \<and> and_query B (not_query (map int [0 ..< N]) B) = []
    \<and> not_query (map int [0 ..< N]) (not_query (map int [0 ..< N]) B) = B"
proof -
  let ?U = "map int [0 ..< N]"
  have sU: "sorted_wrt (<) ?U" by (rule sorted_wrt_map_int_upt)
  have f: "not_query ?U B = filter (\<lambda>x. x \<notin> set B) ?U"
    using sU assms(1) by (simp only: not_query_merge not_merge_filter)
  have sN: "sorted_wrt (<) (not_query ?U B)"
    unfolding f using sU by (rule sorted_wrt_filter)
  have st: "set (not_query ?U B) = set ?U - set B"
    unfolding f by auto
  have "and_query B (not_query ?U B) = filter (\<lambda>x. x \<in> set (not_query ?U B)) B"
    using assms(1) sN by (simp only: and_query_merge and_merge_filter)
  also have "\<dots> = []"
    unfolding st by (simp add: filter_empty_conv)
  finally have a: "and_query B (not_query ?U B) = []" .
  have "not_query ?U (not_query ?U B) = filter (\<lambda>x. x \<notin> set (not_query ?U B)) ?U"
    using sU sN by (simp only: not_query_merge not_merge_filter)
  also have "\<dots> = filter (\<lambda>x. x \<in> set B) ?U"
    unfolding st by (intro filter_cong) auto
  finally have nn: "not_query ?U (not_query ?U B) = filter (\<lambda>x. x \<in> set B) ?U" .
  have "sorted_wrt (<) (filter (\<lambda>x. x \<in> set B) ?U)"
    using sU by (rule sorted_wrt_filter)
  moreover have "set (filter (\<lambda>x. x \<in> set B) ?U) = set B"
    using assms(2) by auto
  ultimately have "filter (\<lambda>x. x \<in> set B) ?U = B"
    using assms(1) by (intro strict_sorted_equal) auto
  with nn have d: "not_query ?U (not_query ?U B) = B" by simp
  from f sN st a d show ?thesis by blast
qed

theorem not_query_complement_witness:
  "sorted_wrt (<) [1, 3 :: int] \<and> set [1, 3 :: int] \<subseteq> set (map int [0 ..< 5])
    \<and> not_query (map int [0 ..< 5]) [1, 3] = [0, 2, 4]
    \<and> and_query [1, 3] (not_query (map int [0 ..< 5]) [1, 3]) = []
    \<and> not_query (map int [0 ..< 5]) (not_query (map int [0 ..< 5]) [1, 3]) = [1, 3]"
proof -
  have u: "map int [0 ..< 5] = [0, 1, 2, 3, 4]"
    by (simp add: upt_rec)
  have h1: "sorted_wrt (<) [1, 3 :: int]" by simp
  have h2: "set [1, 3 :: int] \<subseteq> set (map int [0 ..< 5])"
    unfolding u by simp
  have v: "not_query (map int [0 ..< 5]) [1, 3] = [0, 2, 4]"
    unfolding u by (simp add: not_query_merge)
  from not_query_complement [OF h1 h2] h1 h2 v show ?thesis
    by blast
qed

text \<open>
  C6. For words \<open>t1\<close> and \<open>t2\<close> that are terms (no operator, no space or newline
  inside), the query \<open>t1 t2\<close> evaluates to the same result, and leaves the same state, as
  the query \<open>t1 t2 AND\<close>: the result is \<open>and_query\<close> of the posting lists of the two
  terms in lower case. A query whose words leave exactly one value on the stack returns
  that value.
\<close>

theorem implicit_and_of_two_terms:
  assumes "t1 \<notin> operators" and "t2 \<notin> operators"
    and "CHR '' '' \<notin> set (t1 @ t2)" and "CHR 0x0A \<notin> set (t1 @ t2)"
  shows "eval_boolean_query self (t1 @ '' '' @ t2)
           = eval_boolean_query self (t1 @ '' '' @ t2 @ '' AND'')
    \<and> fst (eval_boolean_query self (t1 @ '' '' @ t2))
           = Inr (and_query (get_posting_list (inverted_index self) (str_lower t1))
                            (get_posting_list (inverted_index self) (str_lower t2)))
    \<and> (\<forall>q v d. eval_loop (all_docs self) (posting_list (inverted_index self)) []
                   (str_split_space (remove_newlines q)) = (Inr [v], d)
               \<longrightarrow> fst (eval_boolean_query self q) = Inr v)"
proof -
  let ?U = "all_docs self" and ?d = "posting_list (inverted_index self)"
  let ?d1 = "snd (defaultdict_getitem ?d (str_lower t1))"
  let ?d2 = "snd (defaultdict_getitem ?d1 (str_lower t2))"
  let ?v1 = "lookup ?d (str_lower t1)" and ?v2 = "lookup ?d (str_lower t2)"
  have a: "eval_loop ?U ?d [] [t1, t2] = (Inr [?v2, ?v1], ?d2)"
    using assms(1,2) by (simp add: eval_loop_term getitem_lookup del: eval_loop.simps(2))
  have b: "eval_loop ?U ?d [] [t1, t2, ''AND''] = (Inr [and_query ?v1 ?v2], ?d2)"
    using assms(1,2) by (simp add: eval_loop_term getitem_lookup eval_loop_AND del: eval_loop.simps(2))
  note tk = two_terms_tokens [OF assms(3,4)]
  have e1: "eval_boolean_query self (t1 @ '' '' @ t2)
      = (Inr (and_query ?v1 ?v2), self\<lparr>inverted_index := (inverted_index self)\<lparr>posting_list := ?d2\<rparr>\<rparr>)"
    unfolding eval_boolean_query_def tk a by (simp add: finish_two)
  have e2: "eval_boolean_query self (t1 @ '' '' @ t2 @ '' AND'')
      = (Inr (and_query ?v1 ?v2), self\<lparr>inverted_index := (inverted_index self)\<lparr>posting_list := ?d2\<rparr>\<rparr>)"
    unfolding eval_boolean_query_def tk b by (simp add: finish_one)
  have c: "\<forall>q v d. eval_loop ?U ?d [] (str_split_space (remove_newlines q)) = (Inr [v], d)
               \<longrightarrow> fst (eval_boolean_query self q) = Inr v"
    by (simp add: eval_boolean_query_def finish_one)
  from e1 e2 c show ?thesis
    by (simp add: get_posting_list_lookup)
qed

theorem implicit_and_of_two_terms_witness:
  "''cat'' \<notin> operators \<and> ''dog'' \<notin> operators
    \<and> CHR '' '' \<notin> set (''cat'' @ ''dog'') \<and> CHR 0x0A \<notin> set (''cat'' @ ''dog'')
    \<and> eval_boolean_query example_retrieval ''cat dog'' = (Inr [0], example_retrieval)
    \<and> eval_boolean_query example_retrieval ''cat dog AND'' = (Inr [0], example_retrieval)
    \<and> and_query (get_posting_list (inverted_index example_retrieval) ''cat'')
                  (get_posting_list (inverted_index example_retrieval) ''dog'') = [0]
    \<and> eval_loop (all_docs example_retrieval) (posting_list (inverted_index example_retrieval)) []
          (str_split_space (remove_newlines ''dog'')) = (Inr [[0, 1]], posting_list example_index)
    \<and> fst (eval_boolean_query example_retrieval ''dog'') = Inr [0, 1]
    \<and> Ecole \<notin> operators \<and> ''x'' \<notin> operators
    \<and> CHR '' '' \<notin> set (Ecole @ ''x'') \<and> CHR 0x0A \<notin> set (Ecole @ ''x'')
    \<and> fst (eval_boolean_query latin1_retrieval (Ecole @ '' '' @ ''x'')) = Inr [0]"
proof -
  have h1: "''cat'' \<notin> operators" and h2: "''dog'' \<notin> operators"
    by (simp_all add: operators_def)
  have h3: "CHR '' '' \<notin> set (''cat'' @ ''dog'')" and h4: "CHR 0x0A \<notin> set (''cat'' @ ''dog'')"
    by simp_all
  note t = implicit_and_of_two_terms [OF h1 h2 h3 h4, of example_retrieval]
  have l: "str_lower ''cat'' = ''cat''" "str_lower ''dog'' = ''dog''"
    by code_simp+
  have g: "get_posting_list (inverted_index example_retrieval) ''cat'' = [0, 2]"
    "get_posting_list (inverted_index example_retrieval) ''dog'' = [0, 1]"
    by (simp_all add: example_retrieval_eq example_index_def get_posting_list_def)
  have a: "and_query [0, 2] [0, 1] = [0]"
    by (simp add: and_query_merge)
  have s: "eval_boolean_query example_retrieval ''cat dog'' = (Inr [0], example_retrieval)"
    by (simp add: eval_boolean_query_def example_retrieval_eq example_index_def
        str_split_space_def remove_newlines_def operators_def l defaultdict_getitem_def
        finish_def a)
  have e: "eval_loop (all_docs example_retrieval) (posting_list (inverted_index example_retrieval)) []
          (str_split_space (remove_newlines ''dog'')) = (Inr [[0, 1]], posting_list example_index)"
    by (simp add: example_retrieval_eq example_index_def
        str_split_space_def remove_newlines_def operators_def l defaultdict_getitem_def)
  from t e have r: "fst (eval_boolean_query example_retrieval ''dog'') = Inr [0, 1]"
    by blast
  from t have q: "eval_boolean_query example_retrieval ''cat dog''
      = eval_boolean_query example_retrieval ''cat dog AND''"
    by simp
  have s': "eval_boolean_query example_retrieval ''cat dog AND'' = (Inr [0], example_retrieval)"
    unfolding q [symmetric] by (rule s)
  from h1 h2 h3 h4 s s' g a e r have base: "''cat'' \<notin> operators \<and> ''dog'' \<notin> operators
      \<and> CHR '' '' \<notin> set (''cat'' @ ''dog'') \<and> CHR 0x0A \<notin> set (''cat'' @ ''dog'')
      \<and> eval_boolean_query example_retrieval ''cat dog'' = (Inr [0], example_retrieval)
      \<and> eval_boolean_query example_retrieval ''cat dog AND'' = (Inr [0], example_retrieval)
      \<and> and_query (get_posting_list (inverted_index example_retrieval) ''cat'')
                    (get_posting_list (inverted_index example_retrieval) ''dog'') = [0]
      \<and> eval_loop (all_docs example_retrieval) (posting_list (inverted_index example_retrieval)) []
            (str_split_space (remove_newlines ''dog'')) = (Inr [[0, 1]], posting_list example_index)
      \<and> fst (eval_boolean_query example_retrieval ''dog'') = Inr [0, 1]"
    by simp
  note u = implicit_and_of_two_terms [OF latin1_words, of latin1_retrieval]
  have gp: "get_posting_list (inverted_index latin1_retrieval) ecole = [0]"
    "get_posting_list (inverted_index latin1_retrieval) ''x'' = [0]"
    by code_simp+
  have aa: "and_query [0] [0] = [0]"
    by (simp add: and_query_merge)
  from u have "fst (eval_boolean_query latin1_retrieval (Ecole @ '' '' @ ''x''))
      = Inr (and_query (get_posting_list (inverted_index latin1_retrieval) (str_lower Ecole))
                       (get_posting_list (inverted_index latin1_retrieval) (str_lower ''x'')))"
    by blast
  then have lr: "fst (eval_boolean_query latin1_retrieval (Ecole @ '' '' @ ''x'')) = Inr [0]"
    unfolding latin1_lower gp aa .
  from base latin1_words lr show ?thesis
    by blast
qed

text \<open>
  C7. The constructor always completes on a sequence of parsed documents, and in the index
  it returns every posting list is strictly ascending, has no repeated value and holds only
  keys of the document table, which are the numbers \<open>0, ..., N - 1\<close> for \<open>N\<close> documents.
\<close>

theorem built_postings_sorted_and_valid:
  "\<exists>idx. InvertedIndex_init parsed = Inr idx
     \<and> (\<forall>(t, ids) \<in> set (posting_list idx).
           sorted_wrt (<) ids \<and> distinct ids
           \<and> set ids \<subseteq> fst ` set (documents idx)
           \<and> set ids \<subseteq> {0 ..< int (length parsed)})
     \<and> map fst (documents idx) = map int [0 ..< length parsed]"
proof -
  from init_result [of parsed] obtain idx where
    i: "InvertedIndex_init parsed = Inr idx"
    and docs: "documents idx
        = map (\<lambda>j. (int j, \<lparr>contents = fst (parsed ! j), internal_id = str_strip (snd (parsed ! j))\<rparr>))
            [0 ..< length parsed]"
    and l: "\<forall>k. lookup (posting_list idx) k = doc_ids k 0 parsed"
    and dist: "distinct (map fst (posting_list idx))"
    by blast
  have keys: "map fst (documents idx) = map int [0 ..< length parsed]"
    unfolding docs by (simp add: comp_def)
  then have "fst ` set (documents idx) = set (map int [0 ..< length parsed])"
    by (metis set_map)
  then have ids: "fst ` set (documents idx) = {0 ..< int (length parsed)}"
    by (simp add: image_int_atLeastLessThan)
  have "\<forall>(t, ids) \<in> set (posting_list idx).
           sorted_wrt (<) ids \<and> distinct ids
           \<and> set ids \<subseteq> fst ` set (documents idx)
           \<and> set ids \<subseteq> {0 ..< int (length parsed)}"
  proof (rule ballI, rule case_prodI2)
    fix p t v assume "p \<in> set (posting_list idx)" and "p = (t, v)"
    then have "lookup (posting_list idx) t = v"
      using dist by (simp add: lookup_entry)
    with l have v: "v = doc_ids t 0 parsed" by simp
    have s: "sorted_wrt (<) v"
      unfolding v by (rule doc_ids_sorted)
    then have d: "distinct v"
      by (simp add: strict_sorted_iff)
    have r: "set v \<subseteq> {0 ..< int (length parsed)}"
      unfolding v using doc_ids_range [of t 0 parsed] by simp
    from s d r show "sorted_wrt (<) v \<and> distinct v
           \<and> set v \<subseteq> fst ` set (documents idx)
           \<and> set v \<subseteq> {0 ..< int (length parsed)}"
      unfolding ids by simp
  qed
  with i keys show ?thesis by blast
qed

theorem built_postings_sorted_and_valid_witness:
  "InvertedIndex_init example_parsed = Inr example_index
     \<and> (''dog'', [0, 1]) \<in> set (posting_list example_index)
     \<and> sorted_wrt (<) [0, 1 :: int] \<and> distinct [0, 1 :: int]
     \<and> set [0, 1] \<subseteq> fst ` set (documents example_index)
     \<and> set [0, 1] \<subseteq> {0 ..< int (length example_parsed)}
     \<and> map fst (documents example_index) = map int [0 ..< length example_parsed]"
proof -
  from built_postings_sorted_and_valid [of example_parsed]
  have a: "\<forall>(t, ids) \<in> set (posting_list example_index).
           sorted_wrt (<) ids \<and> distinct ids
           \<and> set ids \<subseteq> fst ` set (documents example_index)
           \<and> set ids \<subseteq> {0 ..< int (length example_parsed)}"
    and b: "map fst (documents example_index) = map int [0 ..< length example_parsed]"
    unfolding example_index_built by simp_all
  have m: "(''dog'', [0, 1]) \<in> set (posting_list example_index)"
    by (simp add: example_index_def)
  from a m have "sorted_wrt (<) [0, 1 :: int] \<and> distinct [0, 1 :: int]
     \<and> set [0, 1] \<subseteq> fst ` set (documents example_index)
     \<and> set [0, 1] \<subseteq> {0 ..< int (length example_parsed)}"
    by blast
  with b m show ?thesis
    using example_index_built by blast
qed

text \<open>
  C8. For a count \<open>n \<ge> 0\<close>, \<open>top_bottom_n_terms\<close> returns the first \<open>n\<close> entries of
  the pairs (term, length of its posting list) in the order of the key (length, term):
  strictly descending when the flag is set, strictly ascending when it is not; all pairs
  when there are at most \<open>n\<close>. For a store with the lengths a: 5, b: 3, c: 5 the two
  results for \<open>n = 2\<close> are \<open>[(c, 5), (a, 5)]\<close> and \<open>[(b, 3), (a, 5)]\<close>.
\<close>

theorem top_bottom_n_terms_sorted_prefix:
  assumes "distinct (map fst (posting_list idx))" and "0 \<le> n"
  shows "(\<exists>S. mset S = mset (map (\<lambda>(t, ids). (t, length ids)) (posting_list idx))
        \<and> (if reverse then sorted_wrt (\<lambda>a b. (snd a, fst a) > (snd b, fst b)) S
            else sorted_wrt (\<lambda>a b. (snd a, fst a) < (snd b, fst b)) S)
        \<and> top_bottom_n_terms idx n reverse = take (nat n) S
        \<and> (int (length (posting_list idx)) \<le> n \<longrightarrow> top_bottom_n_terms idx n reverse = S))
    \<and> (mset (map (\<lambda>(t, ids). (t, length ids)) (posting_list idx))
          = {#(''a'', 5), (''b'', 3), (''c'', 5)#}
        \<longrightarrow> top_bottom_n_terms idx 2 True = [(''c'', 5), (''a'', 5)]
          \<and> top_bottom_n_terms idx 2 False = [(''b'', 3), (''a'', 5)])"
proof -
  let ?key = "\<lambda>p :: string \<times> nat. (snd p, fst p)"
  let ?items = "map (\<lambda>(t, ids). (t, length ids)) (posting_list idx)"
  let ?S = "if reverse then rev (sort_key ?key ?items) else sort_key ?key ?items"
  have tf: "term_frequencies (posting_list idx) = ?items"
    using assms(1) by (rule term_frequencies_map)
  have res: "top_bottom_n_terms idx m r
      = slice_to m (if r then rev (sort_key ?key ?items) else sort_key ?key ?items)" for m r
    by (simp add: top_bottom_n_terms_def py_sorted_frequency_key tf)
  from assms(1) have "distinct (map fst ?items)"
    by (simp only: keys_of_frequencies)
  then have di: "distinct ?items"
    by (rule distinct_map [THEN iffD1, THEN conjunct1])
  have asc: "sorted_wrt (\<lambda>a b. ?key a < ?key b) (sort_key ?key ?items)"
    using frequency_key_inj di by (rule sort_key_strict)
  have s1: "mset ?S = mset ?items"
    by simp
  have s2: "if reverse then sorted_wrt (\<lambda>a b. (snd a, fst a) > (snd b, fst b)) ?S
            else sorted_wrt (\<lambda>a b. (snd a, fst a) < (snd b, fst b)) ?S"
    using asc by (simp add: sorted_wrt_rev)
  have s3: "top_bottom_n_terms idx n reverse = take (nat n) ?S"
    using assms(2) by (simp add: res slice_to_take)
  have s4: "int (length (posting_list idx)) \<le> n \<longrightarrow> top_bottom_n_terms idx n reverse = ?S"
    unfolding s3 by simp
  have ex: "mset ?items = {#(''a'', 5), (''b'', 3), (''c'', 5)#}
        \<longrightarrow> top_bottom_n_terms idx 2 True = [(''c'', 5), (''a'', 5)]
          \<and> top_bottom_n_terms idx 2 False = [(''b'', 3), (''a'', 5)]"
  proof
    assume "mset ?items = {#(''a'', 5), (''b'', 3), (''c'', 5)#}"
    then have "mset ?items = mset [(''b'', 3), (''a'', 5), (''c'', 5)]"
      by (simp add: add_mset_commute)
    then have "sort_key ?key ?items = [(''b'', 3), (''a'', 5), (''c'', 5)]"
      by (rule sort_key_inj_key_eq) (simp_all add: inj_on_def prod_eq_iff abc_sorted)
    then show "top_bottom_n_terms idx 2 True = [(''c'', 5), (''a'', 5)]
          \<and> top_bottom_n_terms idx 2 False = [(''b'', 3), (''a'', 5)]"
      by (simp add: res slice_to_def)
  qed
  from s1 s2 s3 s4 ex show ?thesis
    by blast
qed

theorem top_bottom_n_terms_sorted_prefix_witness:
  "distinct (map fst (posting_list example_abc)) \<and> (0 :: int) \<le> 2
    \<and> mset (map (\<lambda>(t, ids). (t, length ids)) (posting_list example_abc))
          = {#(''a'', 5), (''b'', 3), (''c'', 5)#}
    \<and> top_bottom_n_terms example_abc 2 True = [(''c'', 5), (''a'', 5)]
    \<and> top_bottom_n_terms example_abc 2 False = [(''b'', 3), (''a'', 5)]
    \<and> top_bottom_n_terms example_abc 7 True = [(''c'', 5), (''a'', 5), (''b'', 3)]"
proof -
  have h1: "distinct (map fst (posting_list example_abc))"
    by (simp add: example_abc_def)
  have h2: "(0 :: int) \<le> 2"
    by simp
  have h3: "mset (map (\<lambda>(t, ids). (t, length ids)) (posting_list example_abc))
          = {#(''a'', 5), (''b'', 3), (''c'', 5)#}"
    by (simp add: example_abc_def eval_nat_numeral)
  from top_bottom_n_terms_sorted_prefix [OF h1 h2] h3
  have "top_bottom_n_terms example_abc 2 True = [(''c'', 5), (''a'', 5)]
    \<and> top_bottom_n_terms example_abc 2 False = [(''b'', 3), (''a'', 5)]"
    by blast
  moreover have "top_bottom_n_terms example_abc 7 True = [(''c'', 5), (''a'', 5), (''b'', 3)]"
    by code_simp
  ultimately show ?thesis
    using h1 h2 h3 by blast
qed

text \<open>
  C9. A term that the index does not have is not an error. In the evaluation loop a word
  that is no operator and whose lower-case form is no key pushes the empty list and the
  loop goes on; \<open>get_posting_list\<close> returns the empty list for an absent term. The
  empty list makes \<open>and_query\<close> empty, leaves the other argument of \<open>or_query\<close> as it
  is, and its \<open>not_query\<close> is the whole universe.
\<close>

theorem unknown_term_is_empty_posting:
  assumes "word \<notin> operators" and "str_lower word \<notin> fst ` set d"
    and "term \<notin> fst ` set (posting_list idx)"
  shows "eval_loop docs d stack (word # query)
           = eval_loop docs (d @ [(str_lower word, [])]) ([] # stack) query
    \<and> get_posting_list idx term = []
    \<and> and_query [] B = [] \<and> and_query A [] = []
    \<and> or_query [] B = B \<and> or_query A [] = A
    \<and> not_query docs [] = docs"
proof -
  from assms(2) have n: "map_of d (str_lower word) = None"
    by (simp add: map_of_eq_None_iff)
  have "defaultdict_getitem d (str_lower word) = ([], d @ [(str_lower word, [])])"
    using assms(2) by (simp add: defaultdict_getitem_def n update_fresh)
  then have e: "eval_loop docs d stack (word # query)
           = eval_loop docs (d @ [(str_lower word, [])]) ([] # stack) query"
    using assms(1) by simp
  from assms(3) have "map_of (posting_list idx) term = None"
    by (simp add: map_of_eq_None_iff)
  then have g: "get_posting_list idx term = []"
    by (simp add: get_posting_list_def)
  have m: "and_query [] B = []" "and_query A [] = []" "or_query [] B = B" "or_query A [] = A"
    "not_query docs [] = docs"
    by (cases A; simp add: and_query_merge or_query_merge not_query_merge)+
  from e g m show ?thesis by blast
qed

theorem unknown_term_is_empty_posting_witness:
  "''Zebra'' \<notin> operators \<and> str_lower ''Zebra'' \<notin> fst ` set [(''cat'', [0, 2 :: int])]
    \<and> ''zebra'' \<notin> fst ` set (posting_list \<lparr>documents = [], posting_list = [(''cat'', [0, 2])]\<rparr>)
    \<and> eval_loop [0, 1, 2] [(''cat'', [0, 2])] [] [''Zebra'', ''NOT'']
         = (Inr [[0, 1, 2]], [(''cat'', [0, 2]), (''zebra'', [])])
    \<and> get_posting_list \<lparr>documents = [], posting_list = [(''cat'', [0, 2])]\<rparr> ''zebra'' = []
    \<and> and_query [] [0, 2] = [] \<and> and_query [0, 2] [] = []
    \<and> or_query [] [0, 2] = [0, 2] \<and> or_query [0, 2] [] = [0, 2]
    \<and> not_query [0, 1, 2] [] = [0, 1, 2]
    \<and> Ecole \<notin> operators \<and> str_lower Ecole \<notin> fst ` set [(Ecole, [0 :: int])]
    \<and> eval_loop [0] [(Ecole, [0])] [] [Ecole] = (Inr [[]], [(Ecole, [0]), (ecole, [])])"
proof -
  have l: "str_lower ''Zebra'' = ''zebra''"
    by code_simp
  have h1: "''Zebra'' \<notin> operators"
    by (simp add: operators_def)
  have h2: "str_lower ''Zebra'' \<notin> fst ` set [(''cat'', [0, 2 :: int])]"
    by (simp add: l)
  have h3: "''zebra'' \<notin> fst ` set (posting_list \<lparr>documents = [], posting_list = [(''cat'', [0, 2])]\<rparr>)"
    by simp
  have n: "''NOT'' \<in> operators"
    by (simp add: operators_def)
  note t = unknown_term_is_empty_posting [OF h1 h2 h3, of "[0, 1, 2]" "[]" "[''NOT'']" "[0, 2]" "[0, 2]"]
  from t have "eval_loop [0, 1, 2] [(''cat'', [0, 2])] [] [''Zebra'', ''NOT'']
         = eval_loop [0, 1, 2] ([(''cat'', [0, 2])] @ [(str_lower ''Zebra'', [])]) [[]] [''NOT'']"
    by blast
  also have "\<dots> = (Inr [[0, 1, 2]], [(''cat'', [0, 2]), (''zebra'', [])])"
    using n t by (simp add: l)
  finally have e: "eval_loop [0, 1, 2] [(''cat'', [0, 2])] [] [''Zebra'', ''NOT'']
         = (Inr [[0, 1, 2]], [(''cat'', [0, 2]), (''zebra'', [])])" .
  from t e h1 h2 h3 have base: "''Zebra'' \<notin> operators \<and> str_lower ''Zebra'' \<notin> fst ` set [(''cat'', [0, 2 :: int])]
      \<and> ''zebra'' \<notin> fst ` set (posting_list \<lparr>documents = [], posting_list = [(''cat'', [0, 2])]\<rparr>)
      \<and> eval_loop [0, 1, 2] [(''cat'', [0, 2])] [] [''Zebra'', ''NOT'']
           = (Inr [[0, 1, 2]], [(''cat'', [0, 2]), (''zebra'', [])])
      \<and> get_posting_list \<lparr>documents = [], posting_list = [(''cat'', [0, 2])]\<rparr> ''zebra'' = []
      \<and> and_query [] [0, 2] = [] \<and> and_query [0, 2] [] = []
      \<and> or_query [] [0, 2] = [0, 2] \<and> or_query [0, 2] [] = [0, 2]
      \<and> not_query [0, 1, 2] [] = [0, 1, 2]"
    by blast
  have k1: "Ecole \<notin> operators"
    by (rule latin1_words)
  have k2: "str_lower Ecole \<notin> fst ` set [(Ecole, [0 :: int])]"
    unfolding latin1_lower by (simp add: ecole_def Ecole_def)
  from unknown_term_is_empty_posting [OF k1 k2 h3, of "[0]" "[]" "[]"]
  have "eval_loop [0] [(Ecole, [0])] [] [Ecole]
      = eval_loop [0] ([(Ecole, [0])] @ [(str_lower Ecole, [])]) [[]] []"
    by blast
  then have k3: "eval_loop [0] [(Ecole, [0])] [] [Ecole] = (Inr [[]], [(Ecole, [0]), (ecole, [])])"
    by (simp add: latin1_lower)
  from base k1 k2 k3 show ?thesis
    by blast
qed

text \<open>
  C10. The index is a function of the sequence of parsed documents. The document table
  gives the \<open>j\<close>-th document of the sequence, counted from 0, the number \<open>j\<close>; the
  posting list of a term is the ascending list of the numbers of the documents whose
  contents have the term as a word; the keys are the words of the contents. (The order in
  which \<^verbatim>\<open>list(set(...))\<close> enumerates the numbers does not enter: lemma
  \<open>sort_of_any_enumeration\<close>.)
\<close>

theorem index_determined_by_document_sequence:
  "\<exists>idx. InvertedIndex_init parsed = Inr idx
     \<and> documents idx
        = map (\<lambda>j. (int j, \<lparr>contents = fst (parsed ! j), internal_id = str_strip (snd (parsed ! j))\<rparr>))
            [0 ..< length parsed]
     \<and> (\<forall>t. get_posting_list idx t
              = filter (\<lambda>i. t \<in> set (str_split (fst (parsed ! nat i)))) (map int [0 ..< length parsed]))
     \<and> fst ` set (posting_list idx) = (\<Union>p \<in> set parsed. set (str_split (fst p)))"
proof -
  from init_result [of parsed] obtain idx where
    i: "InvertedIndex_init parsed = Inr idx"
    and docs: "documents idx
        = map (\<lambda>j. (int j, \<lparr>contents = fst (parsed ! j), internal_id = str_strip (snd (parsed ! j))\<rparr>))
            [0 ..< length parsed]"
    and l: "\<forall>k. lookup (posting_list idx) k = doc_ids k 0 parsed"
    and keys: "fst ` set (posting_list idx) = (\<Union>p \<in> set parsed. set (str_split (fst p)))"
    by blast
  have "get_posting_list idx t
      = filter (\<lambda>i. t \<in> set (str_split (fst (parsed ! nat i)))) (map int [0 ..< length parsed])" for t
    using l by (simp add: get_posting_list_lookup doc_ids_filter)
  with i docs keys show ?thesis by blast
qed

theorem index_determined_by_document_sequence_witness:
  "InvertedIndex_init example_parsed = Inr example_index
     \<and> documents example_index
        = [(0, \<lparr>contents = ''cat dog'', internal_id = ''D1''\<rparr>),
           (1, \<lparr>contents = ''dog bird'', internal_id = ''D2''\<rparr>),
           (2, \<lparr>contents = ''cat bird'', internal_id = ''D3''\<rparr>)]
     \<and> get_posting_list example_index ''bird''
        = filter (\<lambda>i. ''bird'' \<in> set (str_split (fst (example_parsed ! nat i))))
            (map int [0 ..< length example_parsed])
     \<and> get_posting_list example_index ''bird'' = [1, 2]
     \<and> InvertedIndex_init latin1_parsed = Inr latin1_index
     \<and> documents latin1_index
        = [(0, \<lparr>contents = ecole @ [CHR 0xA0] @ ''x'', internal_id = ''D1''\<rparr>)]
     \<and> get_posting_list latin1_index ''x''
        = filter (\<lambda>i. ''x'' \<in> set (str_split (fst (latin1_parsed ! nat i))))
            (map int [0 ..< length latin1_parsed])
     \<and> get_posting_list latin1_index ''x'' = [0]
     \<and> fst ` set (posting_list latin1_index) = {ecole, ''x''}"
proof -
  from index_determined_by_document_sequence [of example_parsed]
  have "get_posting_list example_index ''bird''
        = filter (\<lambda>i. ''bird'' \<in> set (str_split (fst (example_parsed ! nat i))))
            (map int [0 ..< length example_parsed])"
    unfolding example_index_built by simp
  moreover have "get_posting_list example_index ''bird'' = [1, 2]"
    by (simp add: get_posting_list_def example_index_def)
  moreover have "documents example_index
        = [(0, \<lparr>contents = ''cat dog'', internal_id = ''D1''\<rparr>),
           (1, \<lparr>contents = ''dog bird'', internal_id = ''D2''\<rparr>),
           (2, \<lparr>contents = ''cat bird'', internal_id = ''D3''\<rparr>)]"
    by (simp add: example_index_def)
  ultimately have base: "InvertedIndex_init example_parsed = Inr example_index
       \<and> documents example_index
          = [(0, \<lparr>contents = ''cat dog'', internal_id = ''D1''\<rparr>),
             (1, \<lparr>contents = ''dog bird'', internal_id = ''D2''\<rparr>),
             (2, \<lparr>contents = ''cat bird'', internal_id = ''D3''\<rparr>)]
       \<and> get_posting_list example_index ''bird''
          = filter (\<lambda>i. ''bird'' \<in> set (str_split (fst (example_parsed ! nat i))))
              (map int [0 ..< length example_parsed])
       \<and> get_posting_list example_index ''bird'' = [1, 2]"
    using example_index_built by blast
  from index_determined_by_document_sequence [of latin1_parsed]
  have m1: "get_posting_list latin1_index ''x''
        = filter (\<lambda>i. ''x'' \<in> set (str_split (fst (latin1_parsed ! nat i))))
            (map int [0 ..< length latin1_parsed])"
    unfolding latin1_index_built by simp
  have m2: "get_posting_list latin1_index ''x'' = [0]"
    by (simp add: get_posting_list_def latin1_index_def ecole_def)
  have m3: "documents latin1_index
        = [(0, \<lparr>contents = ecole @ [CHR 0xA0] @ ''x'', internal_id = ''D1''\<rparr>)]"
    by (simp add: latin1_index_def)
  have m4: "fst ` set (posting_list latin1_index) = {ecole, ''x''}"
    by (simp add: latin1_index_def)
  from base latin1_index_built m1 m2 m3 m4 show ?thesis
    by blast
qed


end
